theory Spec2Isabelle
  imports Main "HOL-Library.AList"
begin

section \<open>Strings\<close>

text \<open>
  Python strings are modelled as \<^typ>\<open>string\<close>, one \<^typ>\<open>char\<close> per code point, for ASCII
  text (code points below 128). The functions of this section are the methods of
  \<^verbatim>\<open>str\<close> and the character classes of \<^verbatim>\<open>re\<close> that the program uses, restricted to
  that range.
\<close>

definition isspace :: "char \<Rightarrow> bool" where
  \<comment> \<open>\<^verbatim>\<open>str.isspace\<close> and the class \<^verbatim>\<open>\s\<close>: TAB, LF, VT, FF, CR, FS, GS, RS, US and space.\<close>
  "isspace c = (let n = (of_char c :: nat) in (9 \<le> n \<and> n \<le> 13) \<or> (28 \<le> n \<and> n \<le> 32))"

definition isword :: "char \<Rightarrow> bool" where
  \<comment> \<open>The class \<^verbatim>\<open>\w\<close>: letters, digits and the underscore.\<close>
  "isword c = (let n = (of_char c :: nat) in
     (48 \<le> n \<and> n \<le> 57) \<or> (65 \<le> n \<and> n \<le> 90) \<or> n = 95 \<or> (97 \<le> n \<and> n \<le> 122))"

definition char_lower :: "char \<Rightarrow> char" where
  "char_lower c = (let n = (of_char c :: nat) in
     if 65 \<le> n \<and> n \<le> 90 then char_of (n + 32) else c)"

definition lower :: "string \<Rightarrow> string" where
  "lower s = map char_lower s"

definition strip_with :: "(char \<Rightarrow> bool) \<Rightarrow> string \<Rightarrow> string" where
  "strip_with P s = rev (dropWhile P (rev (dropWhile P s)))"

definition strip :: "string \<Rightarrow> string" where
  \<comment> \<open>\<^verbatim>\<open>s.strip()\<close>\<close>
  "strip s = strip_with isspace s"

definition strip_char :: "char \<Rightarrow> string \<Rightarrow> string" where
  \<comment> \<open>\<^verbatim>\<open>s.strip(c)\<close> for a one-character argument\<close>
  "strip_char c s = strip_with (\<lambda>d. d = c) s"

fun startswith :: "string \<Rightarrow> string \<Rightarrow> bool" where
  \<comment> \<open>\<^verbatim>\<open>s.startswith(p)\<close>, the prefix first\<close>
  "startswith [] s = True"
| "startswith (p # ps) [] = False"
| "startswith (p # ps) (c # cs) = (p = c \<and> startswith ps cs)"

fun str_contains :: "string \<Rightarrow> string \<Rightarrow> bool" where
  \<comment> \<open>\<^verbatim>\<open>sub in s\<close>\<close>
  "str_contains sub [] = (sub = [])"
| "str_contains sub (c # cs) = (startswith sub (c # cs) \<or> str_contains sub cs)"

lemma startswith_length: "startswith p s \<Longrightarrow> length p \<le> length s"
  by (induction p s rule: startswith.induct) auto

section \<open>License names and their canonical URLs\<close>

definition LICENSE_URLS :: "(string \<times> string) list" where
  "LICENSE_URLS = [
    (''apache-2.0'', ''https://www.apache.org/licenses/LICENSE-2.0.txt''),
    (''apache license, version 2.0'', ''https://www.apache.org/licenses/LICENSE-2.0.txt''),
    (''the apache software license, version 2.0'', ''https://www.apache.org/licenses/LICENSE-2.0.txt''),
    (''the apache software license'', ''https://www.apache.org/licenses/LICENSE-2.0.txt''),
    (''apache license'', ''https://www.apache.org/licenses/LICENSE-2.0.txt''),
    (''mit'', ''https://opensource.org/licenses/MIT''),
    (''mit license'', ''https://opensource.org/licenses/MIT''),
    (''bsd-3-clause'', ''https://opensource.org/licenses/BSD-3-Clause''),
    (''bsd license'', ''https://opensource.org/licenses/BSD-3-Clause''),
    (''bsd licence'', ''https://opensource.org/licenses/BSD-3-Clause''),
    (''gpl-2.0'', ''https://www.gnu.org/licenses/old-licenses/gpl-2.0.html''),
    (''gpl-3.0'', ''https://www.gnu.org/licenses/gpl-3.0.html''),
    (''gnu general public license v2'', ''https://www.gnu.org/licenses/old-licenses/gpl-2.0.txt''),
    (''lgpl-3.0'', ''https://www.gnu.org/licenses/lgpl-3.0.html''),
    (''lgplv3'', ''https://www.gnu.org/licenses/lgpl-3.0.html''),
    (''gnu lesser general public license v3.0 or later'', ''https://www.gnu.org/licenses/lgpl-3.0.html''),
    (''eclipse public license - v 2.0'', ''https://www.eclipse.org/legal/epl-2.0/''),
    (''eclipse public license, version 1.0'', ''https://www.eclipse.org/legal/epl-v10.html''),
    (''mpl-2.0'', ''https://www.mozilla.org/en-US/MPL/2.0/''),
    (''mozilla public license version 1.1'', ''https://www.mozilla.org/en-US/MPL/1.1/''),
    (''cddl'', ''https://opensource.org/licenses/CDDL-1.0''),
    (''unicode-3.0'', ''https://www.unicode.org/license.txt''),
    (''bouncy castle licence'', ''https://www.bouncycastle.org/licence.html''),
    (''common public license'', ''https://opensource.org/licenses/CPL-1.0''),
    (''cup parser generator copyright notice, license, and disclaimer'',
       ''http://www2.cs.tum.edu/projects/cup/licence.php''),
    (''alfresco component license agreement'', ''https://www.alfresco.com/legal/agreements'')
  ]"

definition license_url_of :: "string \<Rightarrow> string option" where
  \<comment> \<open>\<^verbatim>\<open>cls._LICENSE_URLS[key]\<close>; the keys are distinct literals, and every key the
      heuristics index is one of them, so the \<^verbatim>\<open>KeyError\<close> branch is never taken there.\<close>
  "license_url_of key = map_of LICENSE_URLS key"

definition apply_heuristics :: "string \<Rightarrow> string \<Rightarrow> string option" where
  \<comment> \<open>The diagnostic printed for a non-empty context when no rule matches is not part of
      the result and is left out.\<close>
  "apply_heuristics license_name context =
    (if str_contains ''apache'' license_name \<and> str_contains ''2.0'' license_name then
       license_url_of ''apache-2.0''
     else if startswith ''mit'' license_name then
       license_url_of ''mit''
     else if str_contains ''bsd'' license_name then
       license_url_of ''bsd-3-clause''
     else if str_contains ''eclipse'' license_name then
       (if str_contains ''2.0'' license_name
        then license_url_of ''eclipse public license - v 2.0''
        else license_url_of ''eclipse public license, version 1.0'')
     else if str_contains ''lgpl'' license_name \<or> str_contains ''lesser'' license_name then
       license_url_of ''lgpl-3.0''
     else if str_contains ''gpl'' license_name then
       (if str_contains ''3'' license_name
        then license_url_of ''gpl-3.0''
        else license_url_of ''gpl-2.0'')
     else if str_contains ''mozilla'' license_name \<or> str_contains ''mpl'' license_name then
       (if str_contains ''2.0'' license_name
        then license_url_of ''mpl-2.0''
        else license_url_of ''mozilla public license version 1.1'')
     else if str_contains ''alfresco'' license_name then
       license_url_of ''alfresco component license agreement''
     else None)"

definition get_url :: "string \<Rightarrow> string \<Rightarrow> string option" where
  "get_url license_name context =
    (let normalized_name = strip_char (CHR 0x22) (strip (lower license_name)) in
     case license_url_of normalized_name of
       Some u \<Rightarrow> Some u
     | None \<Rightarrow> apply_heuristics normalized_name context)"

definition get_canonical_license_url :: "string \<Rightarrow> string \<Rightarrow> string option" where
  "get_canonical_license_url license_name context = get_url license_name context"

section \<open>Licenses and packages\<close>

record License =
  name :: string
  url :: "string option"

definition mk_License :: "string \<Rightarrow> string option \<Rightarrow> License" where
  \<comment> \<open>The constructor with \<^verbatim>\<open>__post_init__\<close>: \<^verbatim>\<open>not self.url\<close> holds for \<^verbatim>\<open>None\<close> and for
      the empty string.\<close>
  "mk_License n u =
    (if u = None \<or> u = Some [] then \<lparr>name = n, url = get_canonical_license_url n []\<rparr>
     else \<lparr>name = n, url = u\<rparr>)"

text \<open>
  The field \<^verbatim>\<open>name\<close> of \<^verbatim>\<open>Package\<close> is \<open>pkg_name\<close> here: two records cannot share a
  field name.
\<close>

record Package =
  pkg_name :: string
  version :: string
  purl :: string
  licenses :: "License list"
  license_source :: string

definition has_licenses :: "Package \<Rightarrow> bool" where
  "has_licenses p = (length (licenses p) > 0)"

definition unique_key :: "Package \<Rightarrow> string \<times> string" where
  "unique_key p = (pkg_name p, version p)"

section \<open>Parsing the license text of a manifest line\<close>

subsection \<open>The separator \<^verbatim>\<open>,\s*(?![Vv]ersion\b)\<close>\<close>

definition version_ahead :: "string \<Rightarrow> bool" where
  \<comment> \<open>\<^verbatim>\<open>[Vv]ersion\b\<close> matches at the head of the text: after \<^verbatim>\<open>n\<close> the text ends or a
      character outside \<^verbatim>\<open>\w\<close> follows.\<close>
  "version_ahead s =
    (case s of
       [] \<Rightarrow> False
     | c # cs \<Rightarrow> (c = CHR ''V'' \<or> c = CHR ''v'') \<and> startswith ''ersion'' cs \<and>
         (case drop 6 cs of [] \<Rightarrow> True | d # ds \<Rightarrow> \<not> isword d))"

fun sep_backtrack :: "nat \<Rightarrow> string \<Rightarrow> string option" where
  \<comment> \<open>\<^verbatim>\<open>\s*\<close> holds \<open>k\<close> characters of the text after the comma; the negative lookahead
      is tried behind them, and when it fails \<^verbatim>\<open>\s*\<close> gives one character back. The
      result is the text after the match.\<close>
  "sep_backtrack 0 s = (if \<not> version_ahead s then Some s else None)"
| "sep_backtrack (Suc k) s =
    (if \<not> version_ahead (drop (Suc k) s) then Some (drop (Suc k) s) else sep_backtrack k s)"

definition match_separator :: "string \<Rightarrow> string option" where
  \<comment> \<open>A match of the separator at the head of the text; \<^verbatim>\<open>\s*\<close> is greedy and starts with
      every whitespace character that follows the comma.\<close>
  "match_separator s =
    (case s of
       [] \<Rightarrow> None
     | c # cs \<Rightarrow> if c = CHR '','' then sep_backtrack (length (takeWhile isspace cs)) cs else None)"

lemma sep_backtrack_length: "sep_backtrack k s = Some r \<Longrightarrow> length r \<le> length s"
  by (induction k) (auto split: if_splits)

lemma match_separator_length: "match_separator s = Some r \<Longrightarrow> length r < length s"
  by (cases s) (auto simp: match_separator_def split: if_splits dest: sep_backtrack_length)

function re_split :: "string \<Rightarrow> string \<Rightarrow> string list" where
  \<comment> \<open>\<^verbatim>\<open>re.split\<close> with the separator above, scanning from the left; the first argument
      is the piece read since the last match.\<close>
  "re_split cur [] = [cur]"
| "re_split cur (c # cs) =
    (case match_separator (c # cs) of
       Some rest \<Rightarrow> cur # re_split [] rest
     | None \<Rightarrow> re_split (cur @ [c]) cs)"
  by pat_completeness auto
termination
  by (relation "measure (\<lambda>(cur, s). length s)") (auto dest: match_separator_length)

subsection \<open>Removing \<^verbatim>\<open>https?://\S+\<close>\<close>

definition url_tail :: "string \<Rightarrow> string option" where
  \<comment> \<open>\<^verbatim>\<open>://\S+\<close> at the head of the text; the result is the text after the match.\<close>
  "url_tail s =
    (if startswith ''://'' s \<and> takeWhile (\<lambda>c. \<not> isspace c) (drop 3 s) \<noteq> []
     then Some (dropWhile (\<lambda>c. \<not> isspace c) (drop 3 s)) else None)"

definition match_url :: "string \<Rightarrow> string option" where
  \<comment> \<open>\<^verbatim>\<open>https?://\S+\<close> at the head of the text: the optional \<^verbatim>\<open>s\<close> is tried first, then
      left out.\<close>
  "match_url s =
    (if startswith ''http'' s then
       (let r = drop 4 s in
        case (if startswith ''s'' r then url_tail (drop 1 r) else None) of
          Some t \<Rightarrow> Some t
        | None \<Rightarrow> url_tail r)
     else None)"

lemma url_tail_length: "url_tail s = Some r \<Longrightarrow> length r \<le> length s"
  by (auto simp: url_tail_def split: if_splits intro: le_trans [OF length_dropWhile_le])

lemma match_url_length: "match_url s = Some r \<Longrightarrow> length r < length s"
proof -
  assume h: "match_url s = Some r"
  then have p: "startswith ''http'' s"
    by (simp add: match_url_def split: if_splits)
  from h p have "url_tail (drop 5 s) = Some r \<or> url_tail (drop 4 s) = Some r"
    by (auto simp: match_url_def Let_def split: if_splits option.splits)
  then have "length r \<le> length (drop 4 s)"
    by (auto dest!: url_tail_length)
  moreover from p have "4 \<le> length s"
    by (auto dest: startswith_length)
  ultimately show ?thesis by simp
qed

function remove_urls :: "string \<Rightarrow> string" where
  \<comment> \<open>\<^verbatim>\<open>re.sub(r'https?://\S+', '', s)\<close>\<close>
  "remove_urls [] = []"
| "remove_urls (c # cs) =
    (case match_url (c # cs) of
       Some rest \<Rightarrow> remove_urls rest
     | None \<Rightarrow> c # remove_urls cs)"
  by pat_completeness auto
termination
  by (relation "measure length") (auto dest: match_url_length)

subsection \<open>\<^verbatim>\<open>_parse_license_text\<close>\<close>

definition clean_name_of :: "string \<Rightarrow> string" where
  \<comment> \<open>\<^verbatim>\<open>re.sub(r'https?://\S+', '', part).split(';', 1)[0].strip()\<close>\<close>
  "clean_name_of part = strip (takeWhile (\<lambda>c. c \<noteq> CHR '';'') (remove_urls part))"

fun parse_parts :: "License list \<Rightarrow> string list \<Rightarrow> License list" where
  \<comment> \<open>The loop over the parts; the first argument is the list \<^verbatim>\<open>licenses\<close>.\<close>
  "parse_parts lics [] = lics"
| "parse_parts lics (part # parts) =
    (let part' = strip part;
         clean_name = clean_name_of part'
     in if clean_name \<noteq> [] then parse_parts (lics @ [mk_License clean_name None]) parts
        else parse_parts lics parts)"

definition parse_license_text :: "string \<Rightarrow> License list" where
  "parse_license_text license_text =
    (if license_text = [] \<or> license_text = ''-'' then []
     else parse_parts [] (re_split [] license_text))"

section \<open>Parsing the manifest\<close>

subsection \<open>\<^verbatim>\<open>PACKAGE_PATTERN\<close>: \<^verbatim>\<open>^(.+?):(.+?):(.*?) - ?(.*)$\<close>\<close>

text \<open>
  The matcher follows the backtracking search of \<^verbatim>\<open>re.match\<close> on this pattern. A lazy
  group is tried at its shortest first and grows by one character each time the rest of
  the pattern fails; \<^verbatim>\<open>.\<close> matches every character but the line feed.
\<close>

definition match_end :: "string \<Rightarrow> string option" where
  \<comment> \<open>\<^verbatim>\<open>(.*)$\<close>: the greedy group runs to the first line feed, and \<^verbatim>\<open>$\<close> holds at the
      end of the text or before a line feed that ends it.\<close>
  "match_end s =
    (let g = takeWhile (\<lambda>c. c \<noteq> CHR 0x0A) s;
         r = dropWhile (\<lambda>c. c \<noteq> CHR 0x0A) s
     in if r = [] \<or> r = [CHR 0x0A] then Some g else None)"

definition match_dash :: "string \<Rightarrow> string option" where
  \<comment> \<open>\<^verbatim>\<open> - ?(.*)$\<close> at the head of the text: the optional space is taken first, then left
      out. The result is the fourth group.\<close>
  "match_dash s =
    (if startswith '' -'' s then
       (let r = drop 2 s in
        case (if startswith '' '' r then match_end (drop 1 r) else None) of
          Some g \<Rightarrow> Some g
        | None \<Rightarrow> match_end r)
     else None)"

fun match_purl :: "string \<Rightarrow> string \<Rightarrow> (string \<times> string) option" where
  \<comment> \<open>\<^verbatim>\<open>(.*?) - ?(.*)$\<close>; the first argument is the third group so far.\<close>
  "match_purl g3 [] =
    (case match_dash [] of Some g4 \<Rightarrow> Some (g3, g4) | None \<Rightarrow> None)"
| "match_purl g3 (c # cs) =
    (case match_dash (c # cs) of
       Some g4 \<Rightarrow> Some (g3, g4)
     | None \<Rightarrow> if c = CHR 0x0A then None else match_purl (g3 @ [c]) cs)"

fun match_version :: "string \<Rightarrow> string \<Rightarrow> (string \<times> string \<times> string) option" where
  \<comment> \<open>\<^verbatim>\<open>(.+?):(.*?) - ?(.*)$\<close>; the first argument is the second group so far, and the
      colon is tried once the group is not empty.\<close>
  "match_version g2 [] = None"
| "match_version g2 (c # cs) =
    (case (if g2 \<noteq> [] \<and> c = CHR '':'' then match_purl [] cs else None) of
       Some (g3, g4) \<Rightarrow> Some (g2, g3, g4)
     | None \<Rightarrow> if c = CHR 0x0A then None else match_version (g2 @ [c]) cs)"

fun match_name :: "string \<Rightarrow> string \<Rightarrow> (string \<times> string \<times> string \<times> string) option" where
  \<comment> \<open>The whole pattern; the first argument is the first group so far.\<close>
  "match_name g1 [] = None"
| "match_name g1 (c # cs) =
    (case (if g1 \<noteq> [] \<and> c = CHR '':'' then match_version [] cs else None) of
       Some (g2, g3, g4) \<Rightarrow> Some (g1, g2, g3, g4)
     | None \<Rightarrow> if c = CHR 0x0A then None else match_name (g1 @ [c]) cs)"

definition PACKAGE_PATTERN_match :: "string \<Rightarrow> (string \<times> string \<times> string \<times> string) option" where
  \<comment> \<open>\<^verbatim>\<open>PACKAGE_PATTERN.match(line)\<close> and the groups of the match\<close>
  "PACKAGE_PATTERN_match line = match_name [] line"

subsection \<open>\<^verbatim>\<open>SyftOutputParser.parse\<close>\<close>

definition is_linebreak :: "char \<Rightarrow> bool" where
  \<comment> \<open>The one-character line boundaries of \<^verbatim>\<open>str.splitlines\<close>: LF, VT, FF, CR, FS, GS, RS.\<close>
  "is_linebreak c = (let n = (of_char c :: nat) in (10 \<le> n \<and> n \<le> 13) \<or> (28 \<le> n \<and> n \<le> 30))"

fun splitlines_from :: "string \<Rightarrow> string \<Rightarrow> string list" where
  \<comment> \<open>The first argument is the line read so far; CR LF is one boundary, and a boundary
      that ends the text opens no further line.\<close>
  "splitlines_from cur [] = (if cur = [] then [] else [cur])"
| "splitlines_from cur [c] = (if is_linebreak c then [cur] else [cur @ [c]])"
| "splitlines_from cur (c # d # cs) =
    (if c = CHR 0x0D \<and> d = CHR 0x0A then cur # splitlines_from [] cs
     else if is_linebreak c then cur # splitlines_from [] (d # cs)
     else splitlines_from (cur @ [c]) (d # cs))"

definition splitlines :: "string \<Rightarrow> string list" where
  "splitlines s = splitlines_from [] s"

definition parse_line :: "string \<Rightarrow> Package option" where
  \<comment> \<open>The body of the loop over the lines; \<open>None\<close> when the line is blank or does not
      match, and the loop goes on to the next line.\<close>
  "parse_line line0 =
    (let line = strip line0 in
     if line = [] then None
     else
       case PACKAGE_PATTERN_match line of
         None \<Rightarrow> None
       | Some (g1, g2, g3, g4) \<Rightarrow>
           (let name = strip g1; version = strip g2; purl = strip g3; license_text = strip g4;
                license_text' =
                  (if startswith ''alfresco-'' name \<and> (license_text = [] \<or> license_text = ''-'')
                   then ''GNU Lesser General Public License v3.0 or later''
                   else license_text);
                licenses = parse_license_text license_text'
            in Some \<lparr>pkg_name = name, version = version, purl = purl, licenses = licenses,
                      license_source = ''Original''\<rparr>))"

fun parse_lines :: "Package list \<Rightarrow> string list \<Rightarrow> Package list" where
  \<comment> \<open>The loop; the first argument is the list \<^verbatim>\<open>packages\<close>.\<close>
  "parse_lines packages [] = packages"
| "parse_lines packages (line # lines) =
    (case parse_line line of
       None \<Rightarrow> parse_lines packages lines
     | Some p \<Rightarrow> parse_lines (packages @ [p]) lines)"

definition parse :: "string \<Rightarrow> Package list" where
  "parse syft_output = parse_lines [] (splitlines syft_output)"

section \<open>Descriptors and the network\<close>

text \<open>
  An XML element is read through \<^verbatim>\<open>findtext\<close> on its direct children and through its
  truth value, so it is modelled by the list of its children, each as tag and text. The
  tags are written as the paths of the source write them: \<^verbatim>\<open>m:name\<close> is the tag in the
  POM namespace, \<^verbatim>\<open>name\<close> the tag in no namespace.
\<close>

type_synonym element = "(string \<times> string) list"

definition findtext :: "element \<Rightarrow> string \<Rightarrow> string" where
  \<comment> \<open>\<^verbatim>\<open>elem.findtext(path, default='')\<close>: the text of the first child with that tag\<close>
  "findtext elem path = (case map_of elem path of Some t \<Rightarrow> t | None \<Rightarrow> [])"

definition py_or :: "string \<Rightarrow> string \<Rightarrow> string" where
  \<comment> \<open>\<^verbatim>\<open>a or b\<close> on strings\<close>
  "py_or a b = (if a \<noteq> [] then a else b)"

text \<open>
  A descriptor is modelled by the answers to the six queries the program makes on its
  root.
\<close>

record pom =
  m_licenses :: "element list"
    \<comment> \<open>\<^verbatim>\<open>pom.findall('.//m:licenses/m:license', POM_NAMESPACES)\<close>\<close>
  plain_licenses :: "element list"
    \<comment> \<open>\<^verbatim>\<open>pom.findall('.//license')\<close>\<close>
  m_scm_url :: string
    \<comment> \<open>\<^verbatim>\<open>pom.findtext('.//m:scm/m:url', default='', namespaces=POM_NAMESPACES)\<close>\<close>
  plain_scm_url :: string
    \<comment> \<open>\<^verbatim>\<open>pom.findtext('.//scm/url', default='')\<close>\<close>
  m_parent :: "element option"
    \<comment> \<open>\<^verbatim>\<open>pom.find('m:parent', POM_NAMESPACES)\<close>\<close>
  plain_parent :: "element option"
    \<comment> \<open>\<^verbatim>\<open>pom.find('parent')\<close>\<close>

text \<open>
  \<^verbatim>\<open>fetch_pom\<close> is memoised by \<^verbatim>\<open>lru_cache\<close>, so within a run its result is a function
  of the triple; the network record holds that function. It also holds, for a repository
  URL, the list that the \<^verbatim>\<open>try\<close> block of \<^verbatim>\<open>get_license_from_repo_url\<close> returns (the
  request, the decoding of the answer, and the empty list on any exception).
\<close>

record network =
  fetch_pom :: "string \<Rightarrow> string \<Rightarrow> string \<Rightarrow> pom option"
  github_answer :: "string \<Rightarrow> License list"

text \<open>The calls to the outside that a lookup makes are logged in the order they happen.\<close>

datatype call =
    FetchPom string string string
  | GitHubLicense string
  | PackageHeuristic string

definition get_license_from_repo_url :: "network \<Rightarrow> string \<Rightarrow> License list" where
  "get_license_from_repo_url N repo_url =
    (if \<not> str_contains ''github.com'' repo_url then [] else github_answer N repo_url)"

fun license_elements_loop :: "License list \<Rightarrow> element list \<Rightarrow> License list" where
  \<comment> \<open>The loop over the license elements; the first argument is the list \<^verbatim>\<open>licenses\<close>.\<close>
  "license_elements_loop lics [] = lics"
| "license_elements_loop lics (lic_elem # elems) =
    (let n = strip (py_or (findtext lic_elem ''m:name'') (findtext lic_elem ''name''));
         u = strip (py_or (findtext lic_elem ''m:url'') (findtext lic_elem ''url''))
     in if n \<noteq> [] then
          (let license_url = (if u \<noteq> [] then Some u else get_canonical_license_url n ''Maven POM'')
           in license_elements_loop (lics @ [mk_License n license_url]) elems)
        else license_elements_loop lics elems)"

definition extract_licenses_from_pom ::
    "network \<Rightarrow> pom \<Rightarrow> call list \<Rightarrow> License list \<times> call list" where
  "extract_licenses_from_pom N p log =
    (let license_elements = m_licenses p @ plain_licenses p;
         lics = license_elements_loop [] license_elements
     in if lics \<noteq> [] then (lics, log)
        else
          (let scm_url = py_or (m_scm_url p) (plain_scm_url p)
           in if scm_url \<noteq> [] then
                (get_license_from_repo_url N scm_url, log @ [GitHubLicense scm_url])
              else ([], log)))"

definition find_parent :: "pom \<Rightarrow> element option" where
  \<comment> \<open>\<^verbatim>\<open>pom.find('m:parent', POM_NAMESPACES) or pom.find('parent')\<close>: an element without
      children is false, like \<^verbatim>\<open>None\<close>.\<close>
  "find_parent p =
    (case m_parent p of
       None \<Rightarrow> plain_parent p
     | Some e \<Rightarrow> if e \<noteq> [] then Some e else plain_parent p)"

partial_function (option) lookup_license_recursively ::
    "network \<Rightarrow> string \<Rightarrow> string \<Rightarrow> string \<Rightarrow> int \<Rightarrow> call list \<Rightarrow> (License list \<times> call list) option"
where
  [code]: "lookup_license_recursively N group_id artifact_id ver max_depth log =
    (if max_depth = 0 then Some ([], log)
     else
       (let log1 = log @ [FetchPom group_id artifact_id ver] in
        case fetch_pom N group_id artifact_id ver of
          None \<Rightarrow> Some ([], log1)
        | Some p \<Rightarrow>
            (case extract_licenses_from_pom N p log1 of
               (lics, log2) \<Rightarrow>
                 if lics \<noteq> [] then Some (lics, log2)
                 else
                   (case find_parent p of
                      None \<Rightarrow> Some ([], log2)
                    | Some parent \<Rightarrow>
                        (let parent_group =
                               strip (py_or (findtext parent ''m:groupId'')
                                        (py_or (findtext parent ''groupId'') group_id));
                             parent_artifact =
                               strip (py_or (findtext parent ''m:artifactId'')
                                        (findtext parent ''artifactId''));
                             parent_version =
                               strip (py_or (findtext parent ''m:version'')
                                        (findtext parent ''version''))
                         in if \<not> (parent_artifact \<noteq> [] \<and> parent_version \<noteq> []) then Some ([], log2)
                            else lookup_license_recursively N parent_group parent_artifact
                                   parent_version (max_depth - 1) log2)))))"

section \<open>Heuristics on the package\<close>

definition HEURISTIC_RULES :: "(string \<times> License \<times> (Package \<Rightarrow> bool) list) list" where
  "HEURISTIC_RULES = [
    (''apache_packages'',
     mk_License ''Apache-2.0'' (get_canonical_license_url ''apache-2.0'' []),
     [\<lambda>pkg. str_contains ''org.apache'' (purl pkg),
      \<lambda>pkg. startswith ''tomcat'' (pkg_name pkg) \<or> startswith ''tika-'' (pkg_name pkg)
               \<or> startswith ''commons-'' (pkg_name pkg),
      \<lambda>pkg. pkg_name pkg \<in> set [''catalina'', ''jasper'', ''catalina-ha'', ''catalina-tribes'',
                                   ''catalina-ssi'', ''catalina-storeconfig'']]),
    (''jakarta_packages'',
     mk_License ''EPL-2.0'' (get_canonical_license_url ''eclipse public license - v 2.0'' []),
     [\<lambda>pkg. startswith ''jakarta'' (pkg_name pkg)]),
    (''st4_packages'',
     mk_License ''BSD-3-Clause'' (get_canonical_license_url ''bsd-3-clause'' []),
     [\<lambda>pkg. startswith ''st4'' (pkg_name pkg) \<or> pkg_name pkg = ''ST4'']),
    (''acegi_packages'',
     mk_License ''Apache-2.0'' (get_canonical_license_url ''apache-2.0'' []),
     [\<lambda>pkg. startswith ''acegi'' (pkg_name pkg)])
  ]"

fun apply_rules :: "(string \<times> License \<times> (Package \<Rightarrow> bool) list) list \<Rightarrow> Package \<Rightarrow> License list" where
  \<comment> \<open>The loops over the rules and, in a rule, over its conditions: the first condition
      that holds returns the license of its rule.\<close>
  "apply_rules [] package = []"
| "apply_rules ((rule_name, lic, conditions) # rules) package =
    (if list_ex (\<lambda>condition. condition package) conditions then [lic]
     else apply_rules rules package)"

definition package_heuristics :: "Package \<Rightarrow> License list" where
  \<comment> \<open>\<^verbatim>\<open>PackageHeuristics.apply_heuristics\<close>\<close>
  "package_heuristics package = apply_rules HEURISTIC_RULES package"

section \<open>Enrichment\<close>

datatype py_error = ValueError

definition split_once :: "char \<Rightarrow> string \<Rightarrow> string list" where
  \<comment> \<open>\<^verbatim>\<open>s.split(sep, 1)\<close> for a separator of one character\<close>
  "split_once sep s =
    (if sep \<in> set s
     then [takeWhile (\<lambda>c. c \<noteq> sep) s, tl (dropWhile (\<lambda>c. c \<noteq> sep) s)]
     else [s])"

definition unpack2 :: "string list \<Rightarrow> py_error + string \<times> string" where
  \<comment> \<open>\<^verbatim>\<open>a, b = xs\<close>\<close>
  "unpack2 xs = (case xs of [a, b] \<Rightarrow> Inr (a, b) | _ \<Rightarrow> Inl ValueError)"

definition split_coordinates :: "string \<Rightarrow> py_error + string \<times> string \<times> string" where
  \<comment> \<open>The body of the \<^verbatim>\<open>try\<close> block of \<^verbatim>\<open>_extract_maven_coordinates\<close>\<close>
  "split_coordinates p =
    (let purl_path = drop (length ''pkg:maven/'') p in
     case unpack2 (split_once (CHR ''@'') purl_path) of
       Inl e \<Rightarrow> Inl e
     | Inr (coordinates, ver) \<Rightarrow>
         (case unpack2 (split_once (CHR ''/'') coordinates) of
            Inl e \<Rightarrow> Inl e
          | Inr (group_id, artifact_id) \<Rightarrow> Inr (group_id, artifact_id, ver)))"

definition extract_maven_coordinates :: "string \<Rightarrow> (string \<times> string \<times> string) option" where
  "extract_maven_coordinates p =
    (if \<not> startswith ''pkg:maven/'' p then None
     else
       case split_coordinates p of
         Inr coords \<Rightarrow> Some coords
       | Inl ValueError \<Rightarrow> None)"

definition lookup_package_licenses ::
    "network \<Rightarrow> Package \<Rightarrow> call list \<Rightarrow> (License list \<times> call list) option" where
  \<comment> \<open>A tuple of three is true whatever it holds, so \<^verbatim>\<open>if maven_coords\<close> tests for
      \<^verbatim>\<open>None\<close>; the resolver is called with its default depth 4.\<close>
  "lookup_package_licenses N package log =
    (case extract_maven_coordinates (purl package) of
       Some (group_id, artifact_id, ver) \<Rightarrow>
         (case lookup_license_recursively N group_id artifact_id ver 4 log of
            None \<Rightarrow> None
          | Some (lics, log1) \<Rightarrow>
              if lics \<noteq> [] then Some (lics, log1)
              else Some (package_heuristics package, log1 @ [PackageHeuristic (pkg_name package)]))
     | None \<Rightarrow>
         Some (package_heuristics package, log @ [PackageHeuristic (pkg_name package)]))"

text \<open>
  Packages are objects that \<^verbatim>\<open>enrich_packages\<close> changes in place: a list of packages is a
  list of references into a store. Every reference denotes an object.
\<close>

type_synonym ref = nat
type_synonym store = "ref \<Rightarrow> Package"

fun enrich_loop ::
    "network \<Rightarrow> store \<Rightarrow> call list \<Rightarrow> ref list \<Rightarrow> (store \<times> call list) option" where
  \<comment> \<open>The loop over \<^verbatim>\<open>packages_without_licenses\<close>; the delay and the progress lines are
      left out.\<close>
  "enrich_loop N st log [] = Some (st, log)"
| "enrich_loop N st log (r # rs) =
    (case lookup_package_licenses N (st r) log of
       None \<Rightarrow> None
     | Some (lics, log1) \<Rightarrow>
         if lics \<noteq> [] then
           enrich_loop N
             (st(r := (st r)\<lparr>licenses := lics, license_source := ''Maven/GitHub/Heuristic''\<rparr>))
             log1 rs
         else enrich_loop N st log1 rs)"

definition enrich_packages ::
    "network \<Rightarrow> store \<Rightarrow> call list \<Rightarrow> ref list \<Rightarrow> (ref list \<times> store \<times> call list) option" where
  \<comment> \<open>The result is the returned list with the store and the log after the call.\<close>
  "enrich_packages N st log packages =
    (let packages_without_licenses = filter (\<lambda>r. \<not> has_licenses (st r)) packages in
     if packages_without_licenses = [] then Some (packages, st, log)
     else
       case enrich_loop N st log packages_without_licenses of
         None \<Rightarrow> None
       | Some (st1, log1) \<Rightarrow> Some (packages, st1, log1))"

section \<open>Deduplication\<close>

fun merge_licenses :: "License list \<times> string set \<Rightarrow> License list \<Rightarrow> License list \<times> string set" where
  \<comment> \<open>The inner loop: the state is the license list of the merged package and the set
      \<^verbatim>\<open>existing_license_names\<close>.\<close>
  "merge_licenses (lics, existing) [] = (lics, existing)"
| "merge_licenses (lics, existing) (license_obj # rest) =
    (if name license_obj \<notin> existing
     then merge_licenses (lics @ [license_obj], insert (name license_obj) existing) rest
     else merge_licenses (lics, existing) rest)"

definition dedup_step ::
    "((string \<times> string) \<times> Package) list \<Rightarrow> Package \<Rightarrow> ((string \<times> string) \<times> Package) list" where
  \<comment> \<open>The body of the outer loop. The dictionary \<^verbatim>\<open>merged_packages\<close> keeps its keys in
      the order they were inserted, so it is an association list.\<close>
  "dedup_step merged_packages package =
    (let key = unique_key package;
         merged1 =
           (if key \<notin> fst ` set merged_packages then
              AList.update key
                \<lparr>pkg_name = pkg_name package, version = version package, purl = purl package,
                 licenses = [], license_source = license_source package\<rparr>
                merged_packages
            else merged_packages)
     in AList.map_entry key
          (\<lambda>entry. entry\<lparr>licenses :=
             fst (merge_licenses (licenses entry, name ` set (licenses entry)) (licenses package))\<rparr>)
          merged1)"

definition deduplicate :: "Package list \<Rightarrow> Package list" where
  "deduplicate packages = map snd (foldl dedup_step [] packages)"

section \<open>Notions used in the statements\<close>

subsection \<open>The parent chain\<close>

text \<open>
  The chain of descriptors that the specification speaks of. The parent reference of a
  descriptor is read as the resolver reads it: the group defaults to the group of the
  child, and a reference is there only when the artifact and the version are not empty.
\<close>

definition parent_coordinates :: "string \<Rightarrow> pom \<Rightarrow> (string \<times> string \<times> string) option" where
  "parent_coordinates group_id p =
    (case find_parent p of
       None \<Rightarrow> None
     | Some parent \<Rightarrow>
         (let pg = strip (py_or (findtext parent ''m:groupId'')
                            (py_or (findtext parent ''groupId'') group_id));
              pa = strip (py_or (findtext parent ''m:artifactId'') (findtext parent ''artifactId''));
              pv = strip (py_or (findtext parent ''m:version'') (findtext parent ''version''))
          in if pa \<noteq> [] \<and> pv \<noteq> [] then Some (pg, pa, pv) else None))"

fun descriptor_chain :: "network \<Rightarrow> nat \<Rightarrow> string \<times> string \<times> string \<Rightarrow> pom list" where
  \<comment> \<open>The first \<open>n\<close> descriptors of the parent chain of a triple, the triple's own first.\<close>
  "descriptor_chain N 0 t = []"
| "descriptor_chain N (Suc n) (g, a, v) =
    (case fetch_pom N g a v of
       None \<Rightarrow> []
     | Some p \<Rightarrow>
         p # (case parent_coordinates g p of None \<Rightarrow> [] | Some t \<Rightarrow> descriptor_chain N n t))"

definition extracted :: "network \<Rightarrow> pom \<Rightarrow> License list" where
  \<comment> \<open>The licenses that \<open>extract_licenses_from_pom\<close> returns for a descriptor.\<close>
  "extracted N p = fst (extract_licenses_from_pom N p [])"

definition first_nonempty :: "'a list list \<Rightarrow> 'a list" where
  \<comment> \<open>The first list that is not empty, and the empty list when there is none.\<close>
  "first_nonempty xss = (case find (\<lambda>xs. xs \<noteq> []) xss of Some xs \<Rightarrow> xs | None \<Rightarrow> [])"

subsection \<open>The log of calls\<close>

fun is_fetch :: "call \<Rightarrow> bool" where
  \<comment> \<open>The call is a call of \<open>fetch_pom\<close>.\<close>
  "is_fetch (FetchPom g a v) = True"
| "is_fetch (GitHubLicense u) = False"
| "is_fetch (PackageHeuristic n) = False"

fun is_heuristic :: "call \<Rightarrow> bool" where
  \<comment> \<open>The call is a call of the package heuristics.\<close>
  "is_heuristic (FetchPom g a v) = False"
| "is_heuristic (GitHubLicense u) = False"
| "is_heuristic (PackageHeuristic n) = True"

subsection \<open>URL tokens\<close>

fun has_url :: "string \<Rightarrow> bool" where
  \<comment> \<open>Somewhere in the text \<^verbatim>\<open>https?://\S+\<close> matches.\<close>
  "has_url [] = False"
| "has_url (c # cs) = (match_url (c # cs) \<noteq> None \<or> has_url cs)"

subsection \<open>The lookup for one package\<close>

definition looked_up :: "network \<Rightarrow> Package \<Rightarrow> License list" where
  \<comment> \<open>The licenses that the lookup for a package returns, whatever the log.\<close>
  "looked_up N package =
    (case extract_maven_coordinates (purl package) of
       None \<Rightarrow> package_heuristics package
     | Some (g, a, v) \<Rightarrow>
         (let r = first_nonempty (map (extracted N) (descriptor_chain N 4 (g, a, v)))
          in if r \<noteq> [] then r else package_heuristics package))"

definition enriched :: "network \<Rightarrow> Package \<Rightarrow> Package" where
  \<comment> \<open>What one turn of the loop makes of a package.\<close>
  "enriched N package =
    (if looked_up N package \<noteq> []
     then package\<lparr>licenses := looked_up N package, license_source := ''Maven/GitHub/Heuristic''\<rparr>
     else package)"

subsection \<open>Groups of packages and unions of licenses\<close>

text \<open>
  The words of the specification: the keys in first-seen order, the members of a group,
  and the union of license lists that keeps the first license of every name.
\<close>

fun uniq_by_name :: "License list \<Rightarrow> License list" where
  \<comment> \<open>The licenses in order, without those whose name an earlier one has.\<close>
  "uniq_by_name [] = []"
| "uniq_by_name (l # ls) = l # uniq_by_name (filter (\<lambda>m. name m \<noteq> name l) ls)"

fun first_seen :: "'a list \<Rightarrow> 'a list" where
  \<comment> \<open>The distinct elements in the order of their first occurrence.\<close>
  "first_seen [] = []"
| "first_seen (x # xs) = x # first_seen (filter (\<lambda>y. y \<noteq> x) xs)"

definition members :: "string \<times> string \<Rightarrow> Package list \<Rightarrow> Package list" where
  \<comment> \<open>The input packages with a given key, in input order.\<close>
  "members k ps = filter (\<lambda>p. unique_key p = k) ps"

definition fresh :: "string set \<Rightarrow> License list \<Rightarrow> License list" where
  \<comment> \<open>The licenses whose name is not in the set.\<close>
  "fresh S ls = filter (\<lambda>l. name l \<notin> S) ls"

definition blank_entry :: "Package \<Rightarrow> Package" where
  \<comment> \<open>The package that the loop stores for a key it sees for the first time.\<close>
  "blank_entry package =
    \<lparr>pkg_name = pkg_name package, version = version package, purl = purl package,
     licenses = [], license_source = license_source package\<rparr>"

definition absorb :: "Package \<Rightarrow> License list \<Rightarrow> Package" where
  \<comment> \<open>An entry after the inner loop has merged a license list into it.\<close>
  "absorb entry ls =
    entry\<lparr>licenses := licenses entry @ uniq_by_name (fresh (name ` set (licenses entry)) ls)\<rparr>"

subsection \<open>Data of the examples\<close>

text \<open>
  Two networks for the examples. In the first, \<^verbatim>\<open>link1\<close> to \<^verbatim>\<open>link4\<close> declare no license and
  name the next link as parent, and \<^verbatim>\<open>link5\<close> declares MIT. In the second, every triple
  has a descriptor without licenses whose parent is \<^verbatim>\<open>org.example:loop:1\<close>.
\<close>

definition chain_pom :: "string \<Rightarrow> pom" where
  "chain_pom next_artifact =
    \<lparr>m_licenses = [], plain_licenses = [], m_scm_url = [], plain_scm_url = [],
     m_parent = Some [(''m:groupId'', ''org.example''), (''m:artifactId'', next_artifact),
                      (''m:version'', ''1'')],
     plain_parent = None\<rparr>"

definition chain_network :: network where
  "chain_network =
    \<lparr>fetch_pom = (\<lambda>g a v. map_of
       [((''org.example'', ''link1'', ''1''), chain_pom ''link2''),
        ((''org.example'', ''link2'', ''1''), chain_pom ''link3''),
        ((''org.example'', ''link3'', ''1''), chain_pom ''link4''),
        ((''org.example'', ''link4'', ''1''), chain_pom ''link5''),
        ((''org.example'', ''link5'', ''1''),
           \<lparr>m_licenses = [[(''m:name'', ''MIT'')]], plain_licenses = [], m_scm_url = [],
            plain_scm_url = [], m_parent = None, plain_parent = None\<rparr>)] (g, a, v)),
     github_answer = (\<lambda>u. [])\<rparr>"

definition cyclic_network :: network where
  "cyclic_network =
    \<lparr>fetch_pom = (\<lambda>g a v. Some (chain_pom ''loop'')), github_answer = (\<lambda>u. [])\<rparr>"

definition example_package :: "string \<Rightarrow> string \<Rightarrow> Package" where
  \<comment> \<open>A package without licenses, as the parser creates it.\<close>
  "example_package n p = \<lparr>pkg_name = n, version = ''1'', purl = p, licenses = [], license_source = ''Original''\<rparr>"

definition example_store :: store where
  \<comment> \<open>A store with one licensed package and two packages without licenses.\<close>
  "example_store = (\<lambda>r.
     if r = 0 then
       \<lparr>pkg_name = ''link3'', version = ''1'', purl = ''pkg:maven/org.example/link3@1'',
        licenses = [\<lparr>name = ''Proprietary'', url = None\<rparr>], license_source = ''Original''\<rparr>
     else if r = 1 then example_package ''link3'' ''pkg:maven/org.example/link3@1''
     else example_package ''unknown'' ''pkg:generic/unknown@1'')"

definition lic :: "string \<Rightarrow> string \<Rightarrow> License" where
  \<comment> \<open>A license with a URL of its own.\<close>
  "lic n u = \<lparr>name = n, url = Some u\<rparr>"

definition pkg :: "string \<Rightarrow> string \<Rightarrow> string \<Rightarrow> License list \<Rightarrow> string \<Rightarrow> Package" where
  "pkg n v p ls src = \<lparr>pkg_name = n, version = v, purl = p, licenses = ls, license_source = src\<rparr>"

definition example_packages :: "Package list" where
  "example_packages =
    [pkg ''core'' ''1.0'' ''pkg:maven/a/core@1.0'' [lic ''A'' ''http://a''] ''Original'',
     pkg ''other'' ''2'' ''pkg:maven/a/other@2'' [lic ''B'' ''http://b'', lic ''B'' ''http://b2''] ''Original'',
     pkg ''core'' ''1.0'' ''pkg:maven/b/core@1.0'' [lic ''B'' ''http://b'', lic ''A'' ''http://a2'']
       ''Maven/GitHub/Heuristic'']"

section \<open>The canonical URL of an Apache 2.0 name\<close>

lemma apache_table_entries:
  "list_all (\<lambda>(k, v). str_contains ''apache'' k \<and> str_contains ''2.0'' k \<longrightarrow>
      v = ''https://www.apache.org/licenses/LICENSE-2.0.txt'') LICENSE_URLS"
  by code_simp

lemma apache_key: "license_url_of ''apache-2.0'' = Some ''https://www.apache.org/licenses/LICENSE-2.0.txt''"
  by code_simp

lemma apache_exact_hit:
  assumes "license_url_of n = Some u"
    and "str_contains ''apache'' n" and "str_contains ''2.0'' n"
  shows "u = ''https://www.apache.org/licenses/LICENSE-2.0.txt''"
proof -
  from assms(1) have "(n, u) \<in> set LICENSE_URLS"
    unfolding license_url_of_def by (rule map_of_SomeD)
  with apache_table_entries
  have "str_contains ''apache'' n \<and> str_contains ''2.0'' n \<longrightarrow>
      u = ''https://www.apache.org/licenses/LICENSE-2.0.txt''"
    unfolding list_all_iff by blast
  with assms(2,3) show ?thesis by blast
qed

text \<open>
  C5. Whenever the normalised name (lowercased, whitespace stripped, then double quotes
  stripped) contains both \<^verbatim>\<open>apache\<close> and \<^verbatim>\<open>2.0\<close>, \<open>get_url\<close> returns the Apache 2.0
  URL, for every context and whether or not the normalised name is a key of the exact
  table: a key of the table that contains both words maps to this URL, and otherwise the
  first heuristic rule answers.
\<close>

theorem get_url_apache_2_0:
  assumes "str_contains ''apache'' (strip_char (CHR 0x22) (strip (lower s)))"
    and "str_contains ''2.0'' (strip_char (CHR 0x22) (strip (lower s)))"
  shows "get_url s ctx = Some ''https://www.apache.org/licenses/LICENSE-2.0.txt''"
proof (cases "license_url_of (strip_char (CHR 0x22) (strip (lower s)))")
  case None
  then show ?thesis
    using assms apache_key by (simp add: get_url_def apply_heuristics_def Let_def)
next
  case (Some u)
  with assms apache_exact_hit have "u = ''https://www.apache.org/licenses/LICENSE-2.0.txt''"
    by blast
  with Some show ?thesis by (simp add: get_url_def Let_def)
qed

theorem get_url_apache_2_0_witness:
  "str_contains ''apache'' (strip_char (CHR 0x22) (strip (lower '' \"Version 2.0 of the APACHE Licence\" '')))
   \<and> str_contains ''2.0'' (strip_char (CHR 0x22) (strip (lower '' \"Version 2.0 of the APACHE Licence\" '')))
   \<and> license_url_of (strip_char (CHR 0x22) (strip (lower '' \"Version 2.0 of the APACHE Licence\" ''))) = None
   \<and> get_url '' \"Version 2.0 of the APACHE Licence\" '' ''Maven POM''
       = Some ''https://www.apache.org/licenses/LICENSE-2.0.txt''"
proof -
  have a: "str_contains ''apache'' (strip_char (CHR 0x22) (strip (lower '' \"Version 2.0 of the APACHE Licence\" '')))"
    by code_simp
  have b: "str_contains ''2.0'' (strip_char (CHR 0x22) (strip (lower '' \"Version 2.0 of the APACHE Licence\" '')))"
    by code_simp
  have c: "license_url_of (strip_char (CHR 0x22) (strip (lower '' \"Version 2.0 of the APACHE Licence\" ''))) = None"
    by code_simp
  from a b c get_url_apache_2_0 [OF a b, of "''Maven POM''"] show ?thesis by simp
qed

section \<open>The license text of a manifest line\<close>

text \<open>
  C6. On \<^verbatim>\<open>Eclipse Public License, Version 2.0, Apache-2.0\<close> the separator matches at the
  first comma: \<^verbatim>\<open>\s*\<close> first takes the space, the lookahead then sees \<^verbatim>\<open>Version\<close> and
  fails, \<^verbatim>\<open>\s*\<close> gives the space back, and the lookahead, now in front of the space,
  holds. The text is split into three parts and three licenses come out.
\<close>

theorem parse_license_text_eclipse_version:
  "re_split [] ''Eclipse Public License, Version 2.0, Apache-2.0''
     = [''Eclipse Public License'', '' Version 2.0'', ''Apache-2.0'']
   \<and> map name (parse_license_text ''Eclipse Public License, Version 2.0, Apache-2.0'')
     = [''Eclipse Public License'', ''Version 2.0'', ''Apache-2.0'']"
  by code_simp

section \<open>The recursive resolver and the parent chain\<close>

lemma extract_fst: "fst (extract_licenses_from_pom N p log) = extracted N p"
  by (simp add: extract_licenses_from_pom_def extracted_def Let_def)

lemma extract_log:
  "\<exists>new. snd (extract_licenses_from_pom N p log) = log @ new \<and> filter is_fetch new = []"
  by (simp add: extract_licenses_from_pom_def Let_def)

lemma lookup_zero: "lookup_license_recursively N g a v 0 log = Some ([], log)"
  by (subst lookup_license_recursively.simps) simp

lemma lookup_step:
  assumes "d \<noteq> 0"
  shows "lookup_license_recursively N g a v d log =
    (case fetch_pom N g a v of
       None \<Rightarrow> Some ([], log @ [FetchPom g a v])
     | Some p \<Rightarrow>
         if extracted N p \<noteq> [] then Some (extract_licenses_from_pom N p (log @ [FetchPom g a v]))
         else (case parent_coordinates g p of
                 None \<Rightarrow> Some ([], snd (extract_licenses_from_pom N p (log @ [FetchPom g a v])))
               | Some (pg, pa, pv) \<Rightarrow>
                   lookup_license_recursively N pg pa pv (d - 1)
                     (snd (extract_licenses_from_pom N p (log @ [FetchPom g a v])))))"
proof (cases "fetch_pom N g a v")
  case None
  with assms show ?thesis
    by (subst lookup_license_recursively.simps) simp
next
  case (Some p)
  obtain lics log2 where e: "extract_licenses_from_pom N p (log @ [FetchPom g a v]) = (lics, log2)"
    by (cases "extract_licenses_from_pom N p (log @ [FetchPom g a v])") auto
  then have l: "lics = extracted N p"
    using extract_fst [of N p "log @ [FetchPom g a v]"] by simp
  show ?thesis
  proof (cases "find_parent p")
    case None
    with assms Some e l show ?thesis
      by (subst lookup_license_recursively.simps) (simp add: parent_coordinates_def)
  next
    case (Some parent)
    with assms \<open>fetch_pom N g a v = Some p\<close> e l show ?thesis
      by (subst lookup_license_recursively.simps) (simp add: parent_coordinates_def Let_def)
  qed
qed

lemma lookup_nat:
  "\<exists>new. lookup_license_recursively N g a v (int n) log =
      Some (first_nonempty (map (extracted N) (descriptor_chain N n (g, a, v))), log @ new)
    \<and> length (filter is_fetch new) \<le> n"
proof (induction n arbitrary: g a v log)
  case 0
  show ?case by (simp add: lookup_zero first_nonempty_def)
next
  case (Suc n)
  show ?case
  proof (cases "fetch_pom N g a v")
    case None
    then show ?thesis
      by (simp add: lookup_step first_nonempty_def)
  next
    case (Some p)
    obtain new1 where
      n1: "snd (extract_licenses_from_pom N p (log @ [FetchPom g a v])) = log @ [FetchPom g a v] @ new1"
      and f1: "filter is_fetch new1 = []"
      using extract_log [of N p "log @ [FetchPom g a v]"] by auto
    show ?thesis
    proof (cases "extracted N p \<noteq> []")
      case True
      have "extract_licenses_from_pom N p (log @ [FetchPom g a v]) =
          (extracted N p, log @ [FetchPom g a v] @ new1)"
        using n1 extract_fst [of N p "log @ [FetchPom g a v]"] by (simp add: prod_eq_iff)
      with Some True f1 show ?thesis
        by (simp add: lookup_step first_nonempty_def)
    next
      case False
      show ?thesis
      proof (cases "parent_coordinates g p")
        case None
        with Some False n1 f1 show ?thesis
          by (simp add: lookup_step first_nonempty_def)
      next
        case (Some t)
        obtain pg pa pv where t: "t = (pg, pa, pv)" by (cases t) auto
        from Suc.IH [of pg pa pv "log @ [FetchPom g a v] @ new1"]
        obtain new2 where
          r: "lookup_license_recursively N pg pa pv (int n) (log @ [FetchPom g a v] @ new1) =
                Some (first_nonempty (map (extracted N) (descriptor_chain N n (pg, pa, pv))),
                      (log @ [FetchPom g a v] @ new1) @ new2)"
          and l: "length (filter is_fetch new2) \<le> n" by blast
        have "length (filter is_fetch ([FetchPom g a v] @ new1 @ new2)) \<le> Suc n"
          using l f1 by simp
        with r \<open>fetch_pom N g a v = Some p\<close> False Some t n1 show ?thesis
          by (simp add: lookup_step first_nonempty_def)
      qed
    qed
  qed
qed

lemma descriptor_chain_take:
  "n \<le> m \<Longrightarrow> descriptor_chain N n t = take n (descriptor_chain N m t)"
proof (induction n arbitrary: m t)
  case 0
  show ?case by simp
next
  case (Suc n)
  then obtain k where m: "m = Suc k" and k: "n \<le> k" by (cases m) auto
  obtain g a v where t: "t = (g, a, v)" by (cases t) auto
  show ?case
    using Suc.IH [OF k] by (simp add: m t split: option.splits)
qed

text \<open>
  C1. For a depth budget that is not negative, the resolver returns the licenses
  extracted from the first descriptor with a non-empty extraction among the first
  \<open>max_depth\<close> descriptors of the parent chain, and the empty list when there is none
  among them; the budgeted chain is the prefix of every longer one. With budget 0 the
  result is empty and the log is unchanged: nothing is fetched. On the chain of five
  links, where only \<^verbatim>\<open>link5\<close> has license data, the default budget 4 gives the empty list
  after four fetches, and from \<^verbatim>\<open>link3\<close>, a chain of three links with the data at the
  third, it gives that data.
\<close>

theorem lookup_license_recursively_shallowest:
  "(0 \<le> max_depth \<longrightarrow>
      (\<exists>log'. lookup_license_recursively N g a v max_depth log =
         Some (first_nonempty (map (extracted N) (descriptor_chain N (nat max_depth) (g, a, v))), log')))
   \<and> (\<forall>m. nat max_depth \<le> m \<longrightarrow>
         descriptor_chain N (nat max_depth) (g, a, v) = take (nat max_depth) (descriptor_chain N m (g, a, v)))
   \<and> lookup_license_recursively N g a v 0 log = Some ([], log)
   \<and> map (extracted chain_network) (descriptor_chain chain_network 5 (''org.example'', ''link1'', ''1''))
        = [[], [], [], [], [\<lparr>name = ''MIT'', url = Some ''https://opensource.org/licenses/MIT''\<rparr>]]
   \<and> lookup_license_recursively chain_network ''org.example'' ''link1'' ''1'' 4 [] =
        Some ([], [FetchPom ''org.example'' ''link1'' ''1'', FetchPom ''org.example'' ''link2'' ''1'',
                   FetchPom ''org.example'' ''link3'' ''1'', FetchPom ''org.example'' ''link4'' ''1''])
   \<and> map (extracted chain_network) (descriptor_chain chain_network 5 (''org.example'', ''link3'', ''1''))
        = [[], [], [\<lparr>name = ''MIT'', url = Some ''https://opensource.org/licenses/MIT''\<rparr>]]
   \<and> lookup_license_recursively chain_network ''org.example'' ''link3'' ''1'' 4 [] =
        Some ([\<lparr>name = ''MIT'', url = Some ''https://opensource.org/licenses/MIT''\<rparr>],
              [FetchPom ''org.example'' ''link3'' ''1'', FetchPom ''org.example'' ''link4'' ''1'',
               FetchPom ''org.example'' ''link5'' ''1''])"
proof -
  have general: "0 \<le> max_depth \<longrightarrow>
      (\<exists>log'. lookup_license_recursively N g a v max_depth log =
         Some (first_nonempty (map (extracted N) (descriptor_chain N (nat max_depth) (g, a, v))), log'))"
  proof
    assume "0 \<le> max_depth"
    then have "int (nat max_depth) = max_depth" by simp
    with lookup_nat [of N g a v "nat max_depth" log] show "\<exists>log'. lookup_license_recursively N g a v max_depth log =
         Some (first_nonempty (map (extracted N) (descriptor_chain N (nat max_depth) (g, a, v))), log')"
      by auto
  qed
  have pre: "\<forall>m. nat max_depth \<le> m \<longrightarrow>
         descriptor_chain N (nat max_depth) (g, a, v) = take (nat max_depth) (descriptor_chain N m (g, a, v))"
    using descriptor_chain_take by blast
  have c5: "map (extracted chain_network) (descriptor_chain chain_network 5 (''org.example'', ''link1'', ''1''))
        = [[], [], [], [], [\<lparr>name = ''MIT'', url = Some ''https://opensource.org/licenses/MIT''\<rparr>]]"
    by code_simp
  have l5: "lookup_license_recursively chain_network ''org.example'' ''link1'' ''1'' 4 [] =
        Some ([], [FetchPom ''org.example'' ''link1'' ''1'', FetchPom ''org.example'' ''link2'' ''1'',
                   FetchPom ''org.example'' ''link3'' ''1'', FetchPom ''org.example'' ''link4'' ''1''])"
    by code_simp
  have c3: "map (extracted chain_network) (descriptor_chain chain_network 5 (''org.example'', ''link3'', ''1''))
        = [[], [], [\<lparr>name = ''MIT'', url = Some ''https://opensource.org/licenses/MIT''\<rparr>]]"
    by code_simp
  have l3: "lookup_license_recursively chain_network ''org.example'' ''link3'' ''1'' 4 [] =
        Some ([\<lparr>name = ''MIT'', url = Some ''https://opensource.org/licenses/MIT''\<rparr>],
              [FetchPom ''org.example'' ''link3'' ''1'', FetchPom ''org.example'' ''link4'' ''1'',
               FetchPom ''org.example'' ''link5'' ''1''])"
    by code_simp
  from general pre lookup_zero [of N g a v log] c5 l5 c3 l3 show ?thesis by blast
qed

theorem lookup_license_recursively_shallowest_witness:
  "(0::int) \<le> 4
   \<and> (\<exists>log'. lookup_license_recursively chain_network ''org.example'' ''link2'' ''1'' 4 [] =
         Some (first_nonempty (map (extracted chain_network)
                 (descriptor_chain chain_network (nat 4) (''org.example'', ''link2'', ''1''))), log'))
   \<and> nat 4 \<le> 7
   \<and> descriptor_chain chain_network (nat 4) (''org.example'', ''link2'', ''1'')
       = take (nat 4) (descriptor_chain chain_network 7 (''org.example'', ''link2'', ''1''))
   \<and> first_nonempty (map (extracted chain_network)
                 (descriptor_chain chain_network (nat 4) (''org.example'', ''link2'', ''1'')))
       = [\<lparr>name = ''MIT'', url = Some ''https://opensource.org/licenses/MIT''\<rparr>]"
proof -
  have v: "first_nonempty (map (extracted chain_network)
                 (descriptor_chain chain_network (nat 4) (''org.example'', ''link2'', ''1'')))
       = [\<lparr>name = ''MIT'', url = Some ''https://opensource.org/licenses/MIT''\<rparr>]"
    by code_simp
  have le: "nat 4 \<le> (7::nat)" by simp
  from lookup_license_recursively_shallowest [of 4 chain_network "''org.example''" "''link2''" "''1''" "[]"]
  have "(\<exists>log'. lookup_license_recursively chain_network ''org.example'' ''link2'' ''1'' 4 [] =
         Some (first_nonempty (map (extracted chain_network)
                 (descriptor_chain chain_network (nat 4) (''org.example'', ''link2'', ''1''))), log'))"
    and "descriptor_chain chain_network (nat 4) (''org.example'', ''link2'', ''1'')
       = take (nat 4) (descriptor_chain chain_network 7 (''org.example'', ''link2'', ''1''))"
    using le by simp_all
  with v le show ?thesis by simp
qed

text \<open>
  C7. For every network, every triple and every depth that is not negative the resolver
  returns, and it calls \<open>fetch_pom\<close> at most \<open>max_depth\<close> times. The network is
  arbitrary: it may answer every fetch, and its parent references may form a cycle, as
  in \<open>cyclic_network\<close>, where every descriptor names \<^verbatim>\<open>org.example:loop:1\<close> as its
  parent.
\<close>

theorem lookup_license_recursively_terminates:
  assumes "0 \<le> max_depth"
  shows "\<exists>lics new. lookup_license_recursively N g a v max_depth log = Some (lics, log @ new)
           \<and> int (length (filter is_fetch new)) \<le> max_depth"
proof -
  from assms have e: "int (nat max_depth) = max_depth" by simp
  from lookup_nat [of N g a v "nat max_depth" log] obtain new where
    r: "lookup_license_recursively N g a v (int (nat max_depth)) log =
      Some (first_nonempty (map (extracted N) (descriptor_chain N (nat max_depth) (g, a, v))), log @ new)"
    and l: "length (filter is_fetch new) \<le> nat max_depth" by blast
  from l assms have "int (length (filter is_fetch new)) \<le> max_depth" by linarith
  with r e show ?thesis by auto
qed

theorem lookup_license_recursively_terminates_witness:
  "(0::int) \<le> 4
   \<and> (\<exists>lics new. lookup_license_recursively cyclic_network ''org.example'' ''loop'' ''1'' 4 [] = Some (lics, [] @ new)
           \<and> int (length (filter is_fetch new)) \<le> 4)
   \<and> lookup_license_recursively cyclic_network ''org.example'' ''loop'' ''1'' 4 [] =
       Some ([], [FetchPom ''org.example'' ''loop'' ''1'', FetchPom ''org.example'' ''loop'' ''1'',
                  FetchPom ''org.example'' ''loop'' ''1'', FetchPom ''org.example'' ''loop'' ''1''])"
proof -
  have z: "(0::int) \<le> 4" by simp
  have v: "lookup_license_recursively cyclic_network ''org.example'' ''loop'' ''1'' 4 [] =
       Some ([], [FetchPom ''org.example'' ''loop'' ''1'', FetchPom ''org.example'' ''loop'' ''1'',
                  FetchPom ''org.example'' ''loop'' ''1'', FetchPom ''org.example'' ''loop'' ''1''])"
    by code_simp
  from z v lookup_license_recursively_terminates [OF z, of cyclic_network "''org.example''" "''loop''" "''1''" "[]"]
  show ?thesis by blast
qed

text \<open>
  The bound on the depth is what ends the recursion: on the cyclic network the resolver
  returns for no negative depth.
\<close>

lemma cyclic_parent:
  "fetch_pom cyclic_network g a v = Some (chain_pom ''loop'')"
  "extract_licenses_from_pom cyclic_network (chain_pom ''loop'') log = ([], log)"
  "parent_coordinates g (chain_pom ''loop'') = Some (''org.example'', ''loop'', ''1'')"
proof -
  show "fetch_pom cyclic_network g a v = Some (chain_pom ''loop'')"
    by (simp add: cyclic_network_def)
  show "extract_licenses_from_pom cyclic_network (chain_pom ''loop'') log = ([], log)"
    by (simp add: extract_licenses_from_pom_def chain_pom_def py_or_def)
  have s: "strip ''org.example'' = ''org.example''" "strip ''loop'' = ''loop''" "strip ''1'' = ''1''"
    by code_simp+
  show "parent_coordinates g (chain_pom ''loop'') = Some (''org.example'', ''loop'', ''1'')"
    by (simp add: parent_coordinates_def find_parent_def chain_pom_def findtext_def py_or_def s)
qed

lemma cyclic_returns_only_nonnegative:
  assumes "lookup_license_recursively N g a v d log = Some y"
  shows "N = cyclic_network \<longrightarrow> 0 \<le> d"
proof (rule lookup_license_recursively.raw_induct
    [where P = "\<lambda>N g a v d log y. N = cyclic_network \<longrightarrow> 0 \<le> d", OF _ assms])
  fix lk :: "network \<Rightarrow> string \<Rightarrow> string \<Rightarrow> string \<Rightarrow> int \<Rightarrow> call list
      \<Rightarrow> (License list \<times> call list) option"
    and N g a v and d :: int and log y
  assume ih: "\<And>N g a v d log y. lk N g a v d log = Some y \<Longrightarrow> N = cyclic_network \<longrightarrow> 0 \<le> d"
    and body: "(if d = 0 then Some ([], log)
     else
       (let log1 = log @ [FetchPom g a v] in
        case fetch_pom N g a v of
          None \<Rightarrow> Some ([], log1)
        | Some p \<Rightarrow>
            (case extract_licenses_from_pom N p log1 of
               (lics, log2) \<Rightarrow>
                 if lics \<noteq> [] then Some (lics, log2)
                 else
                   (case find_parent p of
                      None \<Rightarrow> Some ([], log2)
                    | Some parent \<Rightarrow>
                        (let parent_group =
                               strip (py_or (findtext parent ''m:groupId'')
                                        (py_or (findtext parent ''groupId'') g));
                             parent_artifact =
                               strip (py_or (findtext parent ''m:artifactId'')
                                        (findtext parent ''artifactId''));
                             parent_version =
                               strip (py_or (findtext parent ''m:version'')
                                        (findtext parent ''version''))
                         in if \<not> (parent_artifact \<noteq> [] \<and> parent_version \<noteq> []) then Some ([], log2)
                            else lk N parent_group parent_artifact
                                   parent_version (d - 1) log2))))) = Some y"
  show "N = cyclic_network \<longrightarrow> 0 \<le> d"
  proof
    assume n: "N = cyclic_network"
    show "0 \<le> d"
    proof (cases "d = 0")
      case True
      then show ?thesis by simp
    next
      case False
      have s: "strip ''org.example'' = ''org.example''" "strip ''loop'' = ''loop''" "strip ''1'' = ''1''"
        by code_simp+
      have p: "find_parent (chain_pom ''loop'') =
          Some [(''m:groupId'', ''org.example''), (''m:artifactId'', ''loop''), (''m:version'', ''1'')]"
        by (simp add: find_parent_def chain_pom_def)
      from body False n
      have "lk N ''org.example'' ''loop'' ''1'' (d - 1) (log @ [FetchPom g a v]) = Some y"
        by (simp add: cyclic_parent p findtext_def py_or_def s Let_def)
      from ih [OF this] n show ?thesis by simp
    qed
  qed
qed

lemma lookup_negative_depth_cyclic:
  "d < 0 \<Longrightarrow> lookup_license_recursively cyclic_network g a v d log = None"
proof (rule ccontr)
  assume d: "d < 0" and "lookup_license_recursively cyclic_network g a v d log \<noteq> None"
  then obtain y where "lookup_license_recursively cyclic_network g a v d log = Some y" by auto
  then have "0 \<le> d" using cyclic_returns_only_nonnegative by blast
  with d show False by simp
qed

section \<open>What the license-text parser returns\<close>

lemma startswith_append: "startswith p s \<longleftrightarrow> (\<exists>t. s = p @ t)"
  by (induction p s rule: startswith.induct) auto

lemma not_space_http: "\<not> isspace CHR ''h''" "\<not> isspace CHR ''t''" "\<not> isspace CHR ''p''"
  "\<not> isspace CHR ''s''" "\<not> isspace CHR '':''" "\<not> isspace CHR ''/''"
  by (simp_all add: isspace_def)

lemma url_tail_iff:
  "url_tail s \<noteq> None \<longleftrightarrow> (\<exists>x t. \<not> isspace x \<and> s = ''://'' @ x # t)"
proof
  assume "url_tail s \<noteq> None"
  then have p: "startswith ''://'' s" and n: "takeWhile (\<lambda>c. \<not> isspace c) (drop 3 s) \<noteq> []"
    by (auto simp: url_tail_def split: if_splits)
  from p obtain t where s: "s = ''://'' @ t" by (auto simp: startswith_append)
  with n have "takeWhile (\<lambda>c. \<not> isspace c) t \<noteq> []" by simp
  then obtain x t' where "t = x # t'" "\<not> isspace x" by (cases t) (auto split: if_splits)
  with s show "\<exists>x t. \<not> isspace x \<and> s = ''://'' @ x # t" by auto
next
  assume "\<exists>x t. \<not> isspace x \<and> s = ''://'' @ x # t"
  then show "url_tail s \<noteq> None" by (auto simp: url_tail_def)
qed

lemma match_url_iff:
  "match_url s \<noteq> None \<longleftrightarrow>
    (\<exists>x t. \<not> isspace x \<and> (s = ''http://'' @ x # t \<or> s = ''https://'' @ x # t))"
proof
  assume h: "match_url s \<noteq> None"
  then have p: "startswith ''http'' s" by (auto simp: match_url_def split: if_splits)
  then obtain r where s: "s = ''http'' @ r" by (auto simp: startswith_append)
  from h s have "url_tail r \<noteq> None \<or> (startswith ''s'' r \<and> url_tail (drop 1 r) \<noteq> None)"
    by (auto simp: match_url_def Let_def split: if_splits option.splits)
  then show "\<exists>x t. \<not> isspace x \<and> (s = ''http://'' @ x # t \<or> s = ''https://'' @ x # t)"
  proof
    assume "url_tail r \<noteq> None"
    then obtain x t where "\<not> isspace x" "r = ''://'' @ x # t"
      using url_tail_iff [of r] by blast
    with s show ?thesis by auto
  next
    assume a: "startswith ''s'' r \<and> url_tail (drop 1 r) \<noteq> None"
    then obtain r' where r: "r = ''s'' @ r'" by (auto simp: startswith_append)
    with a have "url_tail r' \<noteq> None" by simp
    then obtain x t where "\<not> isspace x" "r' = ''://'' @ x # t"
      using url_tail_iff [of r'] by blast
    with s r show ?thesis by auto
  qed
next
  assume "\<exists>x t. \<not> isspace x \<and> (s = ''http://'' @ x # t \<or> s = ''https://'' @ x # t)"
  then obtain x t where x: "\<not> isspace x" and s: "s = ''http://'' @ x # t \<or> s = ''https://'' @ x # t"
    by blast
  from s show "match_url s \<noteq> None"
  proof
    assume "s = ''http://'' @ x # t"
    then have "match_url s = url_tail (''://'' @ x # t)"
      by (simp add: match_url_def Let_def url_tail_def)
    with x show ?thesis using url_tail_iff [of "''://'' @ x # t"] by auto
  next
    assume "s = ''https://'' @ x # t"
    then have "match_url s = url_tail (''://'' @ x # t)"
      using x by (simp add: match_url_def Let_def url_tail_def)
    with x show ?thesis using url_tail_iff [of "''://'' @ x # t"] by auto
  qed
qed

lemma has_url_iff:
  "has_url s \<longleftrightarrow> (\<exists>pre. \<exists>t. s = pre @ t \<and> match_url t \<noteq> None)"
proof (induction s)
  case Nil
  have "match_url [] = None" by (simp add: match_url_def)
  then show ?case by simp
next
  case (Cons c cs)
  show ?case
  proof
    assume "has_url (c # cs)"
    then have "match_url (c # cs) \<noteq> None \<or> has_url cs" by simp
    then show "\<exists>pre t. c # cs = pre @ t \<and> match_url t \<noteq> None"
    proof
      assume "match_url (c # cs) \<noteq> None"
      then have "c # cs = [] @ (c # cs) \<and> match_url (c # cs) \<noteq> None" by simp
      then show ?thesis by blast
    next
      assume "has_url cs"
      with Cons.IH obtain pre t where "cs = pre @ t" "match_url t \<noteq> None" by blast
      then have "c # cs = (c # pre) @ t \<and> match_url t \<noteq> None" by simp
      then show ?thesis by blast
    qed
  next
    assume "\<exists>pre t. c # cs = pre @ t \<and> match_url t \<noteq> None"
    then obtain pre t where e: "c # cs = pre @ t" and m: "match_url t \<noteq> None" by blast
    show "has_url (c # cs)"
    proof (cases pre)
      case Nil
      with e have "t = c # cs" by simp
      with m show ?thesis by simp
    next
      case (Cons d pre')
      with e have "cs = pre' @ t" by simp
      with m Cons.IH show ?thesis by auto
    qed
  qed
qed

lemma match_url_extend: "match_url t \<noteq> None \<Longrightarrow> match_url (t @ post) \<noteq> None"
  unfolding match_url_iff by auto

lemma has_url_factor: "has_url m \<Longrightarrow> has_url (a @ m @ b)"
proof -
  assume "has_url m"
  then obtain pre t where "m = pre @ t" "match_url t \<noteq> None" unfolding has_url_iff by blast
  then have "a @ m @ b = (a @ pre) @ (t @ b) \<and> match_url (t @ b) \<noteq> None"
    by (simp add: match_url_extend)
  then show ?thesis unfolding has_url_iff by blast
qed

lemma match_url_rest: "match_url s = Some r \<Longrightarrow> r = [] \<or> isspace (hd r)"
proof -
  assume h: "match_url s = Some r"
  have t: "\<And>u. url_tail u = Some r \<Longrightarrow> r = [] \<or> isspace (hd r)"
  proof -
    fix u assume "url_tail u = Some r"
    then have "r = dropWhile (\<lambda>c. \<not> isspace c) (drop 3 u)"
      by (auto simp: url_tail_def split: if_splits)
    then show "r = [] \<or> isspace (hd r)"
      using hd_dropWhile [of "\<lambda>c. \<not> isspace c" "drop 3 u"] by auto
  qed
  from h have "\<exists>u. url_tail u = Some r"
    by (auto simp: match_url_def Let_def split: if_splits option.splits)
  with t show ?thesis by blast
qed

lemma match_url_space: "isspace c \<Longrightarrow> match_url (c # cs) = None"
  using not_space_http(1) by (auto simp: match_url_def)

lemma remove_urls_space_first:
  "r = [] \<or> isspace (hd r) \<Longrightarrow> remove_urls r = [] \<or> isspace (hd (remove_urls r))"
  by (cases r) (auto simp: match_url_space)

lemma remove_urls_prefix:
  "startswith w (remove_urls s) \<Longrightarrow> \<forall>c \<in> set w. \<not> isspace c \<Longrightarrow> startswith w s"
proof (induction s arbitrary: w rule: remove_urls.induct)
  case 1
  then show ?case by simp
next
  case (2 c cs)
  show ?case
  proof (cases w)
    case Nil
    then show ?thesis by simp
  next
    case (Cons x w')
    show ?thesis
    proof (cases "match_url (c # cs)")
      case None
      with 2 Cons show ?thesis by auto
    next
      case (Some rest)
      then have "remove_urls rest = [] \<or> isspace (hd (remove_urls rest))"
        using match_url_rest remove_urls_space_first by blast
      moreover from Some 2(3) Cons have "startswith (x # w') (remove_urls rest)" by simp
      moreover from 2(4) Cons have "\<not> isspace x" by simp
      ultimately show ?thesis by (cases "remove_urls rest") auto
    qed
  qed
qed

lemma match_url_remove:
  assumes "match_url (remove_urls s) \<noteq> None"
  shows "match_url s \<noteq> None"
proof -
  from assms obtain x t where x: "\<not> isspace x"
    and e: "remove_urls s = ''http://'' @ x # t \<or> remove_urls s = ''https://'' @ x # t"
    unfolding match_url_iff by blast
  from e show ?thesis
  proof
    assume "remove_urls s = ''http://'' @ x # t"
    then have "startswith (''http://'' @ [x]) (remove_urls s)" by (simp add: startswith_append)
    moreover have "\<forall>c \<in> set (''http://'' @ [x]). \<not> isspace c" using x not_space_http by simp
    ultimately have "startswith (''http://'' @ [x]) s" by (rule remove_urls_prefix)
    then show ?thesis using x unfolding match_url_iff startswith_append by auto
  next
    assume "remove_urls s = ''https://'' @ x # t"
    then have "startswith (''https://'' @ [x]) (remove_urls s)" by (simp add: startswith_append)
    moreover have "\<forall>c \<in> set (''https://'' @ [x]). \<not> isspace c" using x not_space_http by simp
    ultimately have "startswith (''https://'' @ [x]) s" by (rule remove_urls_prefix)
    then show ?thesis using x unfolding match_url_iff startswith_append by auto
  qed
qed

lemma remove_urls_no_url: "\<not> has_url (remove_urls s)"
proof (induction s rule: remove_urls.induct)
  case 1
  show ?case by simp
next
  case (2 c cs)
  show ?case
  proof (cases "match_url (c # cs)")
    case None
    have "match_url (c # remove_urls cs) = None"
    proof (rule ccontr)
      assume "match_url (c # remove_urls cs) \<noteq> None"
      with None have "match_url (remove_urls (c # cs)) \<noteq> None" by simp
      then have "match_url (c # cs) \<noteq> None" by (rule match_url_remove)
      with None show False by simp
    qed
    with None 2 show ?thesis by simp
  next
    case (Some rest)
    with 2 show ?thesis by simp
  qed
qed

lemma rev_dropWhile_split: "t = rev (dropWhile P (rev t)) @ rev (takeWhile P (rev t))"
  by (metis rev_append rev_rev_ident takeWhile_dropWhile_id)

lemma strip_with_factor: "\<exists>a b. s = a @ strip_with P s @ b"
proof -
  have 1: "s = takeWhile P s @ dropWhile P s" by simp
  have 2: "dropWhile P s = strip_with P s @ rev (takeWhile P (rev (dropWhile P s)))"
    unfolding strip_with_def by (rule rev_dropWhile_split)
  from 1 2 have "s = takeWhile P s @ strip_with P s @ rev (takeWhile P (rev (dropWhile P s)))"
    by simp
  then show ?thesis by blast
qed

lemma strip_with_set: "set (strip_with P s) \<subseteq> set s"
proof -
  obtain a b where "s = a @ strip_with P s @ b" using strip_with_factor by blast
  then have "set s = set a \<union> set (strip_with P s) \<union> set b" by (metis set_append sup_assoc)
  then show ?thesis by blast
qed

lemma last_dropWhile: "dropWhile P xs \<noteq> [] \<Longrightarrow> last (dropWhile P xs) = last xs"
  by (induction xs) (auto split: if_splits)

lemma strip_with_ends:
  assumes "strip_with P s \<noteq> []"
  shows "\<not> P (hd (strip_with P s)) \<and> \<not> P (last (strip_with P s))"
proof -
  let ?t = "dropWhile P s"
  let ?u = "dropWhile P (rev ?t)"
  from assms have u: "?u \<noteq> []" by (simp add: strip_with_def)
  have t: "?t \<noteq> []"
  proof
    assume e: "?t = []"
    have "?u = []" by (simp only: e rev.simps dropWhile.simps)
    with u show False by blast
  qed
  from u have "\<not> P (hd ?u)" by (rule hd_dropWhile)
  then have l: "\<not> P (last (strip_with P s))"
    using u by (simp add: strip_with_def last_rev)
  from u have "last ?u = last (rev ?t)" by (rule last_dropWhile)
  also have "\<dots> = hd ?t" using t by (simp add: last_rev)
  finally have "hd (strip_with P s) = hd ?t"
    using u by (simp add: strip_with_def hd_rev)
  moreover from t have "\<not> P (hd ?t)" by (rule hd_dropWhile)
  ultimately show ?thesis using l by simp
qed

lemma has_url_strip: "has_url (strip s) \<Longrightarrow> has_url s"
proof -
  assume h: "has_url (strip s)"
  obtain a b where e: "s = a @ strip s @ b" unfolding strip_def using strip_with_factor by blast
  from h have "has_url (a @ strip s @ b)" by (rule has_url_factor)
  with e show ?thesis by simp
qed

lemma has_url_takeWhile: "has_url (takeWhile P s) \<Longrightarrow> has_url s"
proof -
  assume h: "has_url (takeWhile P s)"
  then have "has_url ([] @ takeWhile P s @ dropWhile P s)" by (rule has_url_factor)
  then show ?thesis by simp
qed

lemma clean_name_of_props:
  "\<not> has_url (clean_name_of part) \<and> CHR '';'' \<notin> set (clean_name_of part)
   \<and> (clean_name_of part \<noteq> [] \<longrightarrow>
        \<not> isspace (hd (clean_name_of part)) \<and> \<not> isspace (last (clean_name_of part)))"
proof -
  have "\<not> has_url (clean_name_of part)"
    unfolding clean_name_of_def using has_url_strip has_url_takeWhile remove_urls_no_url by blast
  moreover have "CHR '';'' \<notin> set (takeWhile (\<lambda>c. c \<noteq> CHR '';'') (remove_urls part))"
    by (auto dest: set_takeWhileD)
  then have "CHR '';'' \<notin> set (clean_name_of part)"
    unfolding clean_name_of_def strip_def using strip_with_set by blast
  moreover have "clean_name_of part \<noteq> [] \<longrightarrow>
        \<not> isspace (hd (clean_name_of part)) \<and> \<not> isspace (last (clean_name_of part))"
    unfolding clean_name_of_def strip_def using strip_with_ends by blast
  ultimately show ?thesis by blast
qed

lemma mk_License_None: "mk_License n None = \<lparr>name = n, url = get_canonical_license_url n []\<rparr>"
  by (simp add: mk_License_def)

lemma parse_parts_eq:
  "parse_parts lics parts =
     lics @ map (\<lambda>n. mk_License n None)
              (filter (\<lambda>n. n \<noteq> []) (map (\<lambda>part. clean_name_of (strip part)) parts))"
  by (induction parts arbitrary: lics) (simp_all add: Let_def)

text \<open>
  C8. The empty text and the dash give the empty list. For every other text the names of
  the licenses returned are, in order, the non-empty results of stripping each part of
  the split, removing the URL tokens, cutting at the first semicolon and stripping
  again. Every license returned has a name that is not empty, holds no URL token and no
  semicolon, and neither starts nor ends with whitespace, and its URL is the canonical
  URL of the name. \<^verbatim>\<open>MIT; http://example.com/license\<close> gives the one license MIT.
\<close>

theorem parse_license_text_fragments:
  "parse_license_text [] = []
   \<and> parse_license_text ''-'' = []
   \<and> (license_text \<noteq> [] \<and> license_text \<noteq> ''-'' \<longrightarrow>
        map name (parse_license_text license_text) =
          filter (\<lambda>n. n \<noteq> [])
            (map (\<lambda>part. strip (takeWhile (\<lambda>c. c \<noteq> CHR '';'') (remove_urls (strip part))))
               (re_split [] license_text)))
   \<and> (\<forall>l \<in> set (parse_license_text license_text).
        name l \<noteq> [] \<and> \<not> has_url (name l) \<and> CHR '';'' \<notin> set (name l)
        \<and> \<not> isspace (hd (name l)) \<and> \<not> isspace (last (name l))
        \<and> url l = get_canonical_license_url (name l) [])
   \<and> parse_license_text ''MIT; http://example.com/license''
        = [\<lparr>name = ''MIT'', url = Some ''https://opensource.org/licenses/MIT''\<rparr>]"
proof -
  have a: "parse_license_text [] = []" by (simp add: parse_license_text_def)
  have b: "parse_license_text ''-'' = []" by (simp add: parse_license_text_def)
  have c: "license_text \<noteq> [] \<and> license_text \<noteq> ''-'' \<longrightarrow>
        map name (parse_license_text license_text) =
          filter (\<lambda>n. n \<noteq> [])
            (map (\<lambda>part. strip (takeWhile (\<lambda>c. c \<noteq> CHR '';'') (remove_urls (strip part))))
               (re_split [] license_text))"
    by (simp add: parse_license_text_def parse_parts_eq mk_License_None comp_def clean_name_of_def)
  have d: "\<forall>l \<in> set (parse_license_text license_text).
        name l \<noteq> [] \<and> \<not> has_url (name l) \<and> CHR '';'' \<notin> set (name l)
        \<and> \<not> isspace (hd (name l)) \<and> \<not> isspace (last (name l))
        \<and> url l = get_canonical_license_url (name l) []"
  proof
    fix l assume "l \<in> set (parse_license_text license_text)"
    then have "l \<in> set (parse_parts [] (re_split [] license_text))"
      by (auto simp: parse_license_text_def split: if_splits)
    then obtain part where n: "clean_name_of (strip part) \<noteq> []"
      and l: "l = mk_License (clean_name_of (strip part)) None"
      by (auto simp: parse_parts_eq)
    from l have "name l = clean_name_of (strip part)"
      and "url l = get_canonical_license_url (name l) []"
      by (simp_all add: mk_License_None)
    with n clean_name_of_props [of "strip part"]
    show "name l \<noteq> [] \<and> \<not> has_url (name l) \<and> CHR '';'' \<notin> set (name l)
        \<and> \<not> isspace (hd (name l)) \<and> \<not> isspace (last (name l))
        \<and> url l = get_canonical_license_url (name l) []"
      by simp
  qed
  have e: "parse_license_text ''MIT; http://example.com/license''
        = [\<lparr>name = ''MIT'', url = Some ''https://opensource.org/licenses/MIT''\<rparr>]"
    by code_simp
  from a b c d e show ?thesis by blast
qed

theorem parse_license_text_fragments_witness:
  "''BSD (see https://x.org/b) ; 3-clause, ,http://y.org Apache-2.0'' \<noteq> []
   \<and> ''BSD (see https://x.org/b) ; 3-clause, ,http://y.org Apache-2.0'' \<noteq> ''-''
   \<and> map name (parse_license_text ''BSD (see https://x.org/b) ; 3-clause, ,http://y.org Apache-2.0'')
       = filter (\<lambda>n. n \<noteq> [])
            (map (\<lambda>part. strip (takeWhile (\<lambda>c. c \<noteq> CHR '';'') (remove_urls (strip part))))
               (re_split [] ''BSD (see https://x.org/b) ; 3-clause, ,http://y.org Apache-2.0''))
   \<and> map name (parse_license_text ''BSD (see https://x.org/b) ; 3-clause, ,http://y.org Apache-2.0'')
       = [''BSD (see'', ''Apache-2.0'']
   \<and> \<lparr>name = ''Apache-2.0'', url = Some ''https://www.apache.org/licenses/LICENSE-2.0.txt''\<rparr>
       \<in> set (parse_license_text ''BSD (see https://x.org/b) ; 3-clause, ,http://y.org Apache-2.0'')
   \<and> \<not> has_url ''Apache-2.0''"
proof -
  let ?t = "''BSD (see https://x.org/b) ; 3-clause, ,http://y.org Apache-2.0''"
  let ?l = "\<lparr>name = ''Apache-2.0'', url = Some ''https://www.apache.org/licenses/LICENSE-2.0.txt''\<rparr>"
  have v: "parse_license_text ?t =
      [\<lparr>name = ''BSD (see'', url = Some ''https://opensource.org/licenses/BSD-3-Clause''\<rparr>, ?l]"
    by code_simp
  then have m: "?l \<in> set (parse_license_text ?t)" by simp
  have ne: "?t \<noteq> [] \<and> ?t \<noteq> ''-''" by simp
  from parse_license_text_fragments [of ?t] ne
  have 1: "map name (parse_license_text ?t) = filter (\<lambda>n. n \<noteq> [])
            (map (\<lambda>part. strip (takeWhile (\<lambda>c. c \<noteq> CHR '';'') (remove_urls (strip part))))
               (re_split [] ?t))"
    by blast
  from parse_license_text_fragments [of ?t] m
  have "\<not> has_url (name ?l)" by blast
  then have 2: "\<not> has_url ''Apache-2.0''" by simp
  from v have 3: "map name (parse_license_text ?t) = [''BSD (see'', ''Apache-2.0'']" by simp
  from ne 1 2 3 m show ?thesis by blast
qed

section \<open>The vendor fallback of the manifest parser\<close>

lemma alfresco_fallback_licenses:
  "parse_license_text ''GNU Lesser General Public License v3.0 or later'' =
     [\<lparr>name = ''GNU Lesser General Public License v3.0 or later'',
       url = Some ''https://www.gnu.org/licenses/lgpl-3.0.html''\<rparr>]"
  by code_simp

lemma parse_lines_set:
  "set (parse_lines packages lines) = set packages \<union> {p. \<exists>l \<in> set lines. parse_line l = Some p}"
  by (induction lines arbitrary: packages) (auto split: option.splits)

text \<open>
  C9. When the pattern matches the stripped line, the stripped first group starts with
  \<^verbatim>\<open>alfresco-\<close> and the stripped fourth group is empty or the dash, the line yields a
  package whose license list is exactly the fixed license
  \<^verbatim>\<open>GNU Lesser General Public License v3.0 or later\<close> with its canonical URL, hence not
  empty, and the loop over the lines puts that package into its result.
\<close>

theorem parse_line_alfresco_fallback:
  assumes "PACKAGE_PATTERN_match (strip line) = Some (g1, g2, g3, g4)"
    and "startswith ''alfresco-'' (strip g1)"
    and "strip g4 = [] \<or> strip g4 = ''-''"
  shows "\<exists>p. parse_line line = Some p \<and> pkg_name p = strip g1 \<and> has_licenses p
           \<and> licenses p = [\<lparr>name = ''GNU Lesser General Public License v3.0 or later'',
                             url = Some ''https://www.gnu.org/licenses/lgpl-3.0.html''\<rparr>]
           \<and> (\<forall>lines packages. line \<in> set lines \<longrightarrow> p \<in> set (parse_lines packages lines))"
proof -
  have ne: "strip line \<noteq> []"
  proof
    assume "strip line = []"
    with assms(1) show False by (simp add: PACKAGE_PATTERN_match_def)
  qed
  let ?p = "\<lparr>pkg_name = strip g1, version = strip g2, purl = strip g3,
             licenses = [\<lparr>name = ''GNU Lesser General Public License v3.0 or later'',
                           url = Some ''https://www.gnu.org/licenses/lgpl-3.0.html''\<rparr>],
             license_source = ''Original''\<rparr>"
  from assms(3) have t: "(if startswith ''alfresco-'' (strip g1) \<and> (strip g4 = [] \<or> strip g4 = ''-'')
         then ''GNU Lesser General Public License v3.0 or later'' else strip g4)
        = ''GNU Lesser General Public License v3.0 or later''"
    using assms(2) by simp
  have "parse_line line = Some ?p"
    unfolding parse_line_def Let_def using ne assms(1)
    by (simp only: t alfresco_fallback_licenses if_False option.case prod.case)
  moreover have "has_licenses ?p" by (simp add: has_licenses_def)
  moreover from \<open>parse_line line = Some ?p\<close>
  have "\<forall>lines packages. line \<in> set lines \<longrightarrow> ?p \<in> set (parse_lines packages lines)"
    by (auto simp: parse_lines_set)
  ultimately show ?thesis by simp
qed

theorem parse_line_alfresco_fallback_witness:
  "PACKAGE_PATTERN_match (strip ''  alfresco-core:23.1.0:pkg:maven/org.alfresco/alfresco-core@23.1.0 - -'')
     = Some (''alfresco-core'', ''23.1.0'', ''pkg:maven/org.alfresco/alfresco-core@23.1.0'', ''-'')
   \<and> startswith ''alfresco-'' (strip ''alfresco-core'')
   \<and> strip ''-'' = ''-''
   \<and> parse_line ''  alfresco-core:23.1.0:pkg:maven/org.alfresco/alfresco-core@23.1.0 - -''
      = Some \<lparr>pkg_name = ''alfresco-core'', version = ''23.1.0'',
               purl = ''pkg:maven/org.alfresco/alfresco-core@23.1.0'',
               licenses = [\<lparr>name = ''GNU Lesser General Public License v3.0 or later'',
                             url = Some ''https://www.gnu.org/licenses/lgpl-3.0.html''\<rparr>],
               license_source = ''Original''\<rparr>
   \<and> (\<exists>p. parse_line ''  alfresco-core:23.1.0:pkg:maven/org.alfresco/alfresco-core@23.1.0 - -'' = Some p
          \<and> has_licenses p
          \<and> p \<in> set (parse_lines [] [''x'', ''  alfresco-core:23.1.0:pkg:maven/org.alfresco/alfresco-core@23.1.0 - -'']))"
proof -
  let ?l = "''  alfresco-core:23.1.0:pkg:maven/org.alfresco/alfresco-core@23.1.0 - -''"
  have m: "PACKAGE_PATTERN_match (strip ?l)
     = Some (''alfresco-core'', ''23.1.0'', ''pkg:maven/org.alfresco/alfresco-core@23.1.0'', ''-'')"
    by code_simp
  have s: "startswith ''alfresco-'' (strip ''alfresco-core'')" by code_simp
  have d: "strip ''-'' = ''-''" by code_simp
  then have d': "strip ''-'' = [] \<or> strip ''-'' = ''-''" by simp
  have v: "parse_line ?l
      = Some \<lparr>pkg_name = ''alfresco-core'', version = ''23.1.0'',
               purl = ''pkg:maven/org.alfresco/alfresco-core@23.1.0'',
               licenses = [\<lparr>name = ''GNU Lesser General Public License v3.0 or later'',
                             url = Some ''https://www.gnu.org/licenses/lgpl-3.0.html''\<rparr>],
               license_source = ''Original''\<rparr>"
    by code_simp
  from parse_line_alfresco_fallback [OF m s d']
  obtain p where p: "parse_line ?l = Some p" "has_licenses p"
    and a: "\<forall>lines packages. ?l \<in> set lines \<longrightarrow> p \<in> set (parse_lines packages lines)"
    by blast
  have "?l \<in> set [''x'', ?l]" by simp
  with a have "p \<in> set (parse_lines [] [''x'', ?l])" by blast
  with p have "\<exists>p. parse_line ?l = Some p \<and> has_licenses p \<and> p \<in> set (parse_lines [] [''x'', ?l])"
    by blast
  with m s d v show ?thesis by blast
qed

section \<open>The order of the lookups for one package\<close>

lemma extract_log_github:
  "\<exists>new. snd (extract_licenses_from_pom N p log) = log @ new \<and> (\<forall>c \<in> set new. \<not> is_heuristic c)"
  by (simp add: extract_licenses_from_pom_def Let_def)

lemma lookup_nat_log:
  "\<exists>r new. lookup_license_recursively N g a v (int n) log = Some (r, log @ new)
     \<and> (\<forall>c \<in> set new. \<not> is_heuristic c)
     \<and> (0 < n \<longrightarrow> new \<noteq> [] \<and> hd new = FetchPom g a v)"
proof (induction n arbitrary: g a v log)
  case 0
  show ?case by (simp add: lookup_zero)
next
  case (Suc n)
  show ?case
  proof (cases "fetch_pom N g a v")
    case None
    then show ?thesis by (simp add: lookup_step)
  next
    case (Some p)
    obtain lics log2 where e: "extract_licenses_from_pom N p (log @ [FetchPom g a v]) = (lics, log2)"
      by (cases "extract_licenses_from_pom N p (log @ [FetchPom g a v])") auto
    obtain new1 where n1: "log2 = log @ [FetchPom g a v] @ new1"
      and h1: "\<forall>c \<in> set new1. \<not> is_heuristic c"
      using extract_log_github [of N p "log @ [FetchPom g a v]"] e by auto
    show ?thesis
    proof (cases "extracted N p \<noteq> []")
      case True
      with Some e n1 h1 show ?thesis by (simp add: lookup_step)
    next
      case False
      show ?thesis
      proof (cases "parent_coordinates g p")
        case None
        with Some False e n1 h1 show ?thesis by (simp add: lookup_step)
      next
        case (Some t)
        obtain pg pa pv where t: "t = (pg, pa, pv)" by (cases t) auto
        from Suc.IH [of pg pa pv log2]
        obtain r new2 where
          r: "lookup_license_recursively N pg pa pv (int n) log2 = Some (r, log2 @ new2)"
          and h2: "\<forall>c \<in> set new2. \<not> is_heuristic c" by blast
        have "lookup_license_recursively N g a v (int (Suc n)) log =
            Some (r, log @ ([FetchPom g a v] @ new1 @ new2))"
          using r \<open>fetch_pom N g a v = Some p\<close> False Some t e n1 by (simp add: lookup_step)
        moreover have "\<forall>c \<in> set ([FetchPom g a v] @ new1 @ new2). \<not> is_heuristic c"
          using h1 h2 by auto
        moreover have "[FetchPom g a v] @ new1 @ new2 \<noteq> []
            \<and> hd ([FetchPom g a v] @ new1 @ new2) = FetchPom g a v" by simp
        ultimately show ?thesis by blast
      qed
    qed
  qed
qed

lemma split_once_at:
  "split_once sep s = (if sep \<in> set s then [takeWhile (\<lambda>c. c \<noteq> sep) s, tl (dropWhile (\<lambda>c. c \<noteq> sep) s)] else [s])"
  by (simp add: split_once_def)

lemma unpack2_split_once:
  "unpack2 (split_once sep s) =
    (if sep \<in> set s then Inr (takeWhile (\<lambda>c. c \<noteq> sep) s, tl (dropWhile (\<lambda>c. c \<noteq> sep) s))
     else Inl ValueError)"
  by (simp add: split_once_def unpack2_def)

lemma split_at_first_iff:
  "sep \<in> set s \<and> a = takeWhile (\<lambda>c. c \<noteq> sep) s \<and> b = tl (dropWhile (\<lambda>c. c \<noteq> sep) s)
    \<longleftrightarrow> s = a @ sep # b \<and> sep \<notin> set a"
proof
  assume h: "sep \<in> set s \<and> a = takeWhile (\<lambda>c. c \<noteq> sep) s \<and> b = tl (dropWhile (\<lambda>c. c \<noteq> sep) s)"
  then have "dropWhile (\<lambda>c. c \<noteq> sep) s \<noteq> []" by (simp add: dropWhile_eq_Nil_conv)
  moreover then have "hd (dropWhile (\<lambda>c. c \<noteq> sep) s) = sep"
    using hd_dropWhile [of "\<lambda>c. c \<noteq> sep" s] by simp
  ultimately have "dropWhile (\<lambda>c. c \<noteq> sep) s = sep # b" using h
    by (cases "dropWhile (\<lambda>c. c \<noteq> sep) s") auto
  then have "s = a @ sep # b" using h takeWhile_dropWhile_id [of "\<lambda>c. c \<noteq> sep" s] by simp
  moreover have "sep \<notin> set a" using h by (auto dest: set_takeWhileD)
  ultimately show "s = a @ sep # b \<and> sep \<notin> set a" by simp
next
  assume h: "s = a @ sep # b \<and> sep \<notin> set a"
  then have n: "\<And>x. x \<in> set a \<Longrightarrow> x \<noteq> sep" by auto
  from h have "takeWhile (\<lambda>c. c \<noteq> sep) s = a" using takeWhile_append2 [of a "\<lambda>c. c \<noteq> sep" "sep # b", OF n] by simp
  moreover from h have "dropWhile (\<lambda>c. c \<noteq> sep) s = sep # b" using dropWhile_append2 [of a "\<lambda>c. c \<noteq> sep" "sep # b", OF n] by simp
  ultimately show "sep \<in> set s \<and> a = takeWhile (\<lambda>c. c \<noteq> sep) s \<and> b = tl (dropWhile (\<lambda>c. c \<noteq> sep) s)"
    using h by simp
qed

lemma drop_tag: "drop (length ''pkg:maven/'') p = drop 10 p"
  by (simp add: eval_nat_numeral)

lemma split_coordinates_eq:
  "split_coordinates p =
    (let rest = drop 10 p; coordinates = takeWhile (\<lambda>c. c \<noteq> CHR ''@'') rest in
     if CHR ''@'' \<in> set rest \<and> CHR ''/'' \<in> set coordinates
     then Inr (takeWhile (\<lambda>c. c \<noteq> CHR ''/'') coordinates,
               tl (dropWhile (\<lambda>c. c \<noteq> CHR ''/'') coordinates),
               tl (dropWhile (\<lambda>c. c \<noteq> CHR ''@'') rest))
     else Inl ValueError)"
  unfolding split_coordinates_def drop_tag
  by (simp add: unpack2_split_once Let_def)

lemma extract_maven_coordinates_Some:
  "extract_maven_coordinates p = Some (g, a, v) \<longleftrightarrow>
     p = ''pkg:maven/'' @ g @ ''/'' @ a @ ''@'' @ v
     \<and> CHR ''/'' \<notin> set g \<and> CHR ''@'' \<notin> set g \<and> CHR ''@'' \<notin> set a"
proof
  assume h: "extract_maven_coordinates p = Some (g, a, v)"
  then have sw: "startswith ''pkg:maven/'' p" and sc: "split_coordinates p = Inr (g, a, v)"
    by (auto simp: extract_maven_coordinates_def split: if_splits sum.splits py_error.splits)
  from sw obtain rest where p: "p = ''pkg:maven/'' @ rest"
    unfolding startswith_append by blast
  then have d: "drop 10 p = rest" by simp
  let ?co = "takeWhile (\<lambda>c. c \<noteq> CHR ''@'') rest"
  from sc d have 1: "CHR ''@'' \<in> set rest \<and> ?co = ?co \<and> v = tl (dropWhile (\<lambda>c. c \<noteq> CHR ''@'') rest)"
    and 2: "CHR ''/'' \<in> set ?co \<and> g = takeWhile (\<lambda>c. c \<noteq> CHR ''/'') ?co
              \<and> a = tl (dropWhile (\<lambda>c. c \<noteq> CHR ''/'') ?co)"
    by (auto simp: split_coordinates_eq Let_def split: if_splits)
  from 1 have r: "rest = ?co @ CHR ''@'' # v" and na: "CHR ''@'' \<notin> set ?co"
    using split_at_first_iff [of "CHR ''@''" rest ?co v] by auto
  from 2 have c: "?co = g @ CHR ''/'' # a" and ng: "CHR ''/'' \<notin> set g"
    using split_at_first_iff [of "CHR ''/''" ?co g a] by auto
  from r c have "rest = g @ ''/'' @ a @ ''@'' @ v" by simp
  with p na c ng show "p = ''pkg:maven/'' @ g @ ''/'' @ a @ ''@'' @ v
     \<and> CHR ''/'' \<notin> set g \<and> CHR ''@'' \<notin> set g \<and> CHR ''@'' \<notin> set a" by auto
next
  assume h: "p = ''pkg:maven/'' @ g @ ''/'' @ a @ ''@'' @ v
     \<and> CHR ''/'' \<notin> set g \<and> CHR ''@'' \<notin> set g \<and> CHR ''@'' \<notin> set a"
  let ?rest = "g @ ''/'' @ a @ ''@'' @ v"
  let ?co = "g @ CHR ''/'' # a"
  from h have sw: "startswith ''pkg:maven/'' p" by simp
  from h have d: "drop 10 p = ?rest" by simp
  from h have "?rest = ?co @ CHR ''@'' # v \<and> CHR ''@'' \<notin> set ?co" by simp
  then have 1: "CHR ''@'' \<in> set ?rest \<and> ?co = takeWhile (\<lambda>c. c \<noteq> CHR ''@'') ?rest
      \<and> v = tl (dropWhile (\<lambda>c. c \<noteq> CHR ''@'') ?rest)"
    using split_at_first_iff [of "CHR ''@''" ?rest ?co v] by blast
  from h have "?co = g @ CHR ''/'' # a \<and> CHR ''/'' \<notin> set g" by simp
  then have 2: "CHR ''/'' \<in> set ?co \<and> g = takeWhile (\<lambda>c. c \<noteq> CHR ''/'') ?co
      \<and> a = tl (dropWhile (\<lambda>c. c \<noteq> CHR ''/'') ?co)"
    using split_at_first_iff [of "CHR ''/''" ?co g a] by blast
  from 1 2 have "split_coordinates p = Inr (g, a, v)"
    unfolding split_coordinates_eq Let_def d by (metis (full_types))
  with sw show "extract_maven_coordinates p = Some (g, a, v)"
    by (simp add: extract_maven_coordinates_def)
qed

lemma extract_maven_coordinates_None:
  "extract_maven_coordinates p = None \<longleftrightarrow>
     \<not> startswith ''pkg:maven/'' p \<or> split_coordinates p = Inl ValueError"
  by (auto simp: extract_maven_coordinates_def split: sum.splits py_error.splits)

lemma split_coordinates_error:
  "split_coordinates p = Inl ValueError \<longleftrightarrow>
     CHR ''@'' \<notin> set (drop 10 p)
     \<or> CHR ''/'' \<notin> set (takeWhile (\<lambda>c. c \<noteq> CHR ''@'') (drop 10 p))"
  by (auto simp: split_coordinates_eq Let_def)

lemma lookup_default_depth:
  "\<exists>r rnew. lookup_license_recursively N g a v 4 log = Some (r, log @ rnew)
     \<and> (\<forall>c \<in> set rnew. \<not> is_heuristic c) \<and> rnew \<noteq> [] \<and> hd rnew = FetchPom g a v"
  using lookup_nat_log [of N g a v 4 log] by simp

text \<open>
  C4. \<open>extract_maven_coordinates\<close> gives a triple exactly for a purl that is the tag
  \<^verbatim>\<open>pkg:maven/\<close>, a group without \<^verbatim>\<open>/\<close> and \<^verbatim>\<open>@\<close>, \<^verbatim>\<open>/\<close>, an artifact without \<^verbatim>\<open>@\<close>, \<^verbatim>\<open>@\<close>
  and a version. It gives \<open>None\<close> exactly when the tag is missing or the split raises
  \<^verbatim>\<open>ValueError\<close>, which is when \<^verbatim>\<open>@\<close> is missing or no \<^verbatim>\<open>/\<close> stands before the first \<^verbatim>\<open>@\<close>;
  the error never leaves the function. The lookup for a package always returns. Without
  coordinates its only call is the package heuristic. With coordinates it first calls
  the resolver, whose calls start with the fetch of the triple and include no
  heuristic; when the resolver's result is not empty that is the result and no
  heuristic is called, and when it is empty the heuristic is called last and gives the
  result.
\<close>

theorem lookup_package_licenses_order:
  "(extract_maven_coordinates p = Some (g, a, v) \<longleftrightarrow>
      p = ''pkg:maven/'' @ g @ ''/'' @ a @ ''@'' @ v
      \<and> CHR ''/'' \<notin> set g \<and> CHR ''@'' \<notin> set g \<and> CHR ''@'' \<notin> set a)
   \<and> (extract_maven_coordinates p = None \<longleftrightarrow>
        \<not> startswith ''pkg:maven/'' p \<or> split_coordinates p = Inl ValueError)
   \<and> (split_coordinates p = Inl ValueError \<longleftrightarrow>
        CHR ''@'' \<notin> set (drop 10 p)
        \<or> CHR ''/'' \<notin> set (takeWhile (\<lambda>c. c \<noteq> CHR ''@'') (drop 10 p)))
   \<and> (\<exists>lics new. lookup_package_licenses N package log = Some (lics, log @ new)
        \<and> (extract_maven_coordinates (purl package) = None \<longrightarrow>
              lics = package_heuristics package \<and> new = [PackageHeuristic (pkg_name package)])
        \<and> (\<forall>g a v. extract_maven_coordinates (purl package) = Some (g, a, v) \<longrightarrow>
              (\<exists>r rnew. lookup_license_recursively N g a v 4 log = Some (r, log @ rnew)
                 \<and> rnew \<noteq> [] \<and> hd rnew = FetchPom g a v \<and> (\<forall>c \<in> set rnew. \<not> is_heuristic c)
                 \<and> (r \<noteq> [] \<longrightarrow> lics = r \<and> new = rnew)
                 \<and> (r = [] \<longrightarrow> lics = package_heuristics package
                        \<and> new = rnew @ [PackageHeuristic (pkg_name package)]))))"
proof -
  have lk: "\<exists>lics new. lookup_package_licenses N package log = Some (lics, log @ new)
        \<and> (extract_maven_coordinates (purl package) = None \<longrightarrow>
              lics = package_heuristics package \<and> new = [PackageHeuristic (pkg_name package)])
        \<and> (\<forall>g a v. extract_maven_coordinates (purl package) = Some (g, a, v) \<longrightarrow>
              (\<exists>r rnew. lookup_license_recursively N g a v 4 log = Some (r, log @ rnew)
                 \<and> rnew \<noteq> [] \<and> hd rnew = FetchPom g a v \<and> (\<forall>c \<in> set rnew. \<not> is_heuristic c)
                 \<and> (r \<noteq> [] \<longrightarrow> lics = r \<and> new = rnew)
                 \<and> (r = [] \<longrightarrow> lics = package_heuristics package
                        \<and> new = rnew @ [PackageHeuristic (pkg_name package)])))"
  proof (cases "extract_maven_coordinates (purl package)")
    case None
    then show ?thesis by (simp add: lookup_package_licenses_def)
  next
    case (Some t)
    obtain g' a' v' where t: "t = (g', a', v')" by (cases t) auto
    obtain r rnew where r: "lookup_license_recursively N g' a' v' 4 log = Some (r, log @ rnew)"
      and h: "\<forall>c \<in> set rnew. \<not> is_heuristic c" "rnew \<noteq> []" "hd rnew = FetchPom g' a' v'"
      using lookup_default_depth [of N g' a' v' log] by blast
    show ?thesis
    proof (cases "r = []")
      case True
      with Some t r h show ?thesis by (simp add: lookup_package_licenses_def)
    next
      case False
      with Some t r h show ?thesis by (simp add: lookup_package_licenses_def)
    qed
  qed
  from extract_maven_coordinates_Some [of p g a v] extract_maven_coordinates_None [of p]
    split_coordinates_error [of p] lk
  show ?thesis by blast
qed

theorem lookup_package_licenses_order_witness:
  "extract_maven_coordinates (purl (example_package ''link3'' ''pkg:maven/org.example/link3@1''))
     = Some (''org.example'', ''link3'', ''1'')
   \<and> (\<exists>lics new r rnew.
        lookup_package_licenses chain_network (example_package ''link3'' ''pkg:maven/org.example/link3@1'') []
          = Some (lics, [] @ new)
        \<and> lookup_license_recursively chain_network ''org.example'' ''link3'' ''1'' 4 [] = Some (r, [] @ rnew)
        \<and> r \<noteq> [] \<and> lics = r \<and> new = rnew \<and> hd rnew = FetchPom ''org.example'' ''link3'' ''1'')
   \<and> extract_maven_coordinates (purl (example_package ''commons-io'' ''pkg:maven/commons-io@2.11'')) = None
   \<and> split_coordinates ''pkg:maven/commons-io@2.11'' = Inl ValueError
   \<and> lookup_package_licenses chain_network (example_package ''commons-io'' ''pkg:maven/commons-io@2.11'') []
       = Some ([\<lparr>name = ''Apache-2.0'', url = Some ''https://www.apache.org/licenses/LICENSE-2.0.txt''\<rparr>],
               [PackageHeuristic ''commons-io''])
   \<and> lookup_package_licenses chain_network (example_package ''link1'' ''pkg:maven/org.example/link1@1'') []
       = Some ([], [FetchPom ''org.example'' ''link1'' ''1'', FetchPom ''org.example'' ''link2'' ''1'',
                   FetchPom ''org.example'' ''link3'' ''1'', FetchPom ''org.example'' ''link4'' ''1'',
                   PackageHeuristic ''link1''])"
proof -
  let ?p3 = "example_package ''link3'' ''pkg:maven/org.example/link3@1''"
  let ?pc = "example_package ''commons-io'' ''pkg:maven/commons-io@2.11''"
  have e3: "extract_maven_coordinates (purl ?p3) = Some (''org.example'', ''link3'', ''1'')"
    by code_simp
  have r3: "lookup_license_recursively chain_network ''org.example'' ''link3'' ''1'' 4 [] =
        Some ([\<lparr>name = ''MIT'', url = Some ''https://opensource.org/licenses/MIT''\<rparr>],
              [FetchPom ''org.example'' ''link3'' ''1'', FetchPom ''org.example'' ''link4'' ''1'',
               FetchPom ''org.example'' ''link5'' ''1''])"
    by code_simp
  have ec: "extract_maven_coordinates (purl ?pc) = None" by code_simp
  have sc: "split_coordinates ''pkg:maven/commons-io@2.11'' = Inl ValueError" by code_simp
  have hc: "package_heuristics ?pc =
      [\<lparr>name = ''Apache-2.0'', url = Some ''https://www.apache.org/licenses/LICENSE-2.0.txt''\<rparr>]"
    by code_simp
  have nc: "pkg_name ?pc = ''commons-io''" by (simp add: example_package_def)
  have l1: "lookup_package_licenses chain_network (example_package ''link1'' ''pkg:maven/org.example/link1@1'') []
       = Some ([], [FetchPom ''org.example'' ''link1'' ''1'', FetchPom ''org.example'' ''link2'' ''1'',
                   FetchPom ''org.example'' ''link3'' ''1'', FetchPom ''org.example'' ''link4'' ''1'',
                   PackageHeuristic ''link1''])"
    by code_simp
  from lookup_package_licenses_order [of "purl ?p3" "''org.example''" "''link3''" "''1''" chain_network ?p3 "[]",
      THEN conjunct2, THEN conjunct2, THEN conjunct2]
  obtain lics new where a: "lookup_package_licenses chain_network ?p3 [] = Some (lics, [] @ new)"
    and b: "\<forall>g a v. extract_maven_coordinates (purl ?p3) = Some (g, a, v) \<longrightarrow>
              (\<exists>r rnew. lookup_license_recursively chain_network g a v 4 [] = Some (r, [] @ rnew)
                 \<and> rnew \<noteq> [] \<and> hd rnew = FetchPom g a v \<and> (\<forall>c \<in> set rnew. \<not> is_heuristic c)
                 \<and> (r \<noteq> [] \<longrightarrow> lics = r \<and> new = rnew)
                 \<and> (r = [] \<longrightarrow> lics = package_heuristics ?p3
                        \<and> new = rnew @ [PackageHeuristic (pkg_name ?p3)]))"
    by (elim exE conjE) (rule that, assumption+)
  from b e3 obtain r rnew where
    c: "lookup_license_recursively chain_network ''org.example'' ''link3'' ''1'' 4 [] = Some (r, [] @ rnew)"
    and d: "hd rnew = FetchPom ''org.example'' ''link3'' ''1''" "r \<noteq> [] \<longrightarrow> lics = r \<and> new = rnew"
    by blast
  from c r3 have "r \<noteq> []" by auto
  with a c d have w3: "\<exists>lics new r rnew.
        lookup_package_licenses chain_network ?p3 [] = Some (lics, [] @ new)
        \<and> lookup_license_recursively chain_network ''org.example'' ''link3'' ''1'' 4 [] = Some (r, [] @ rnew)
        \<and> r \<noteq> [] \<and> lics = r \<and> new = rnew \<and> hd rnew = FetchPom ''org.example'' ''link3'' ''1''"
    by blast
  from lookup_package_licenses_order [of "purl ?pc" "[]" "[]" "[]" chain_network ?pc "[]",
      THEN conjunct2, THEN conjunct2, THEN conjunct2] ec
  have "lookup_package_licenses chain_network ?pc [] =
      Some (package_heuristics ?pc, [PackageHeuristic (pkg_name ?pc)])"
    by auto
  with hc nc have wc: "lookup_package_licenses chain_network ?pc []
       = Some ([\<lparr>name = ''Apache-2.0'', url = Some ''https://www.apache.org/licenses/LICENSE-2.0.txt''\<rparr>],
               [PackageHeuristic ''commons-io''])"
    by simp
  from e3 w3 ec sc wc l1 show ?thesis by blast
qed

section \<open>What enrichment changes\<close>

lemma lookup_package_licenses_value:
  "\<exists>new. lookup_package_licenses N package log = Some (looked_up N package, log @ new)"
proof (cases "extract_maven_coordinates (purl package)")
  case None
  then show ?thesis by (simp add: lookup_package_licenses_def looked_up_def)
next
  case (Some t)
  obtain g a v where t: "t = (g, a, v)" by (cases t) auto
  from lookup_nat [of N g a v 4 log] obtain new where
    "lookup_license_recursively N g a v 4 log =
      Some (first_nonempty (map (extracted N) (descriptor_chain N 4 (g, a, v))), log @ new)"
    by auto
  with Some t show ?thesis
    by (simp add: lookup_package_licenses_def looked_up_def Let_def)
qed

lemma package_heuristics_frame:
  "package_heuristics (package\<lparr>licenses := l, license_source := s\<rparr>) = package_heuristics package"
  by (simp add: package_heuristics_def HEURISTIC_RULES_def)

lemma looked_up_frame:
  "looked_up N (package\<lparr>licenses := l, license_source := s\<rparr>) = looked_up N package"
  unfolding looked_up_def package_heuristics_frame by simp

lemma enriched_idem: "enriched N (enriched N package) = enriched N package"
  by (simp add: enriched_def looked_up_frame)

lemma enrich_loop_result:
  "\<exists>st' log'. enrich_loop N st log rs = Some (st', log')
     \<and> (\<forall>r. st' r = (if r \<in> set rs then enriched N (st r) else st r))"
proof (induction rs arbitrary: st log)
  case Nil
  show ?case by simp
next
  case (Cons r rs)
  obtain new where l: "lookup_package_licenses N (st r) log = Some (looked_up N (st r), log @ new)"
    using lookup_package_licenses_value by blast
  let ?st1 = "st(r := enriched N (st r))"
  have step: "enrich_loop N st log (r # rs) = enrich_loop N ?st1 (log @ new) rs"
  proof (cases "looked_up N (st r) = []")
    case True
    then have "?st1 = st" by (simp add: enriched_def)
    with l True show ?thesis by simp
  next
    case False
    with l show ?thesis by (simp add: enriched_def)
  qed
  from Cons.IH [of ?st1 "log @ new"] obtain st' log' where
    e: "enrich_loop N ?st1 (log @ new) rs = Some (st', log')"
    and f: "\<forall>q. st' q = (if q \<in> set rs then enriched N (?st1 q) else ?st1 q)" by blast
  have "\<forall>q. st' q = (if q \<in> set (r # rs) then enriched N (st q) else st q)"
  proof
    fix q
    show "st' q = (if q \<in> set (r # rs) then enriched N (st q) else st q)"
      using f [rule_format, of q] by (simp add: enriched_idem)
  qed
  with step e show ?case by simp
qed

text \<open>
  C3. \<open>enrich_packages\<close> always returns, and returns the list of references it was
  given. A package that has licenses when the call starts is the same object with the
  same fields afterwards, and so is every object that is not in the list. For a package
  of the list without licenses, the lookup returns a list that does not depend on the
  log; when that list is not empty the package leaves with it as its licenses and with
  the source \<^verbatim>\<open>Maven/GitHub/Heuristic\<close>, its other fields unchanged, and when it is empty
  the package is unchanged.
\<close>

theorem enrich_packages_frame:
  "\<exists>st' log'. enrich_packages N st log packages = Some (packages, st', log')
     \<and> (\<forall>r. has_licenses (st r) \<longrightarrow> st' r = st r)
     \<and> (\<forall>r. r \<notin> set packages \<longrightarrow> st' r = st r)
     \<and> (\<forall>r \<in> set packages. \<not> has_licenses (st r) \<longrightarrow>
          (\<exists>lics. (\<forall>l0. \<exists>new. lookup_package_licenses N (st r) l0 = Some (lics, l0 @ new))
             \<and> (lics \<noteq> [] \<longrightarrow>
                  st' r = (st r)\<lparr>licenses := lics, license_source := ''Maven/GitHub/Heuristic''\<rparr>)
             \<and> (lics = [] \<longrightarrow> st' r = st r)))"
proof -
  let ?work = "filter (\<lambda>r. \<not> has_licenses (st r)) packages"
  obtain st' log' where e: "enrich_loop N st log ?work = Some (st', log')"
    and f: "\<forall>r. st' r = (if r \<in> set ?work then enriched N (st r) else st r)"
    using enrich_loop_result by blast
  have r: "enrich_packages N st log packages = Some (packages, st', log')"
  proof (cases "?work = []")
    case True
    with e have "st' = st" "log' = log" by simp_all
    with True show ?thesis by (simp add: enrich_packages_def)
  next
    case False
    with e show ?thesis by (simp add: enrich_packages_def)
  qed
  have a: "\<forall>r. has_licenses (st r) \<longrightarrow> st' r = st r" using f by simp
  have b: "\<forall>r. r \<notin> set packages \<longrightarrow> st' r = st r" using f by simp
  have c: "\<forall>r \<in> set packages. \<not> has_licenses (st r) \<longrightarrow>
          (\<exists>lics. (\<forall>l0. \<exists>new. lookup_package_licenses N (st r) l0 = Some (lics, l0 @ new))
             \<and> (lics \<noteq> [] \<longrightarrow>
                  st' r = (st r)\<lparr>licenses := lics, license_source := ''Maven/GitHub/Heuristic''\<rparr>)
             \<and> (lics = [] \<longrightarrow> st' r = st r))"
  proof (intro ballI impI)
    fix r assume "r \<in> set packages" "\<not> has_licenses (st r)"
    then have "st' r = enriched N (st r)" using f by simp
    then have "(looked_up N (st r) \<noteq> [] \<longrightarrow>
                  st' r = (st r)\<lparr>licenses := looked_up N (st r), license_source := ''Maven/GitHub/Heuristic''\<rparr>)
             \<and> (looked_up N (st r) = [] \<longrightarrow> st' r = st r)"
      by (simp add: enriched_def)
    moreover have "\<forall>l0. \<exists>new. lookup_package_licenses N (st r) l0 = Some (looked_up N (st r), l0 @ new)"
      using lookup_package_licenses_value by blast
    ultimately show "\<exists>lics. (\<forall>l0. \<exists>new. lookup_package_licenses N (st r) l0 = Some (lics, l0 @ new))
             \<and> (lics \<noteq> [] \<longrightarrow>
                  st' r = (st r)\<lparr>licenses := lics, license_source := ''Maven/GitHub/Heuristic''\<rparr>)
             \<and> (lics = [] \<longrightarrow> st' r = st r)"
      by blast
  qed
  from r a b c show ?thesis by blast
qed

theorem enrich_packages_frame_witness:
  "has_licenses (example_store 0) \<and> \<not> has_licenses (example_store 1) \<and> \<not> has_licenses (example_store 2)
   \<and> (\<exists>st' log'. enrich_packages chain_network example_store [] [0, 1, 2] = Some ([0, 1, 2], st', log')
        \<and> st' 0 = example_store 0
        \<and> st' 1 = (example_store 1)\<lparr>licenses :=
                     [\<lparr>name = ''MIT'', url = Some ''https://opensource.org/licenses/MIT''\<rparr>],
                     license_source := ''Maven/GitHub/Heuristic''\<rparr>
        \<and> st' 2 = example_store 2
        \<and> st' 3 = example_store 3)"
proof -
  have h0: "has_licenses (example_store 0)" by code_simp
  have h1: "\<not> has_licenses (example_store 1)" by code_simp
  have h2: "\<not> has_licenses (example_store 2)" by code_simp
  have v1: "lookup_package_licenses chain_network (example_store 1) [] =
      Some ([\<lparr>name = ''MIT'', url = Some ''https://opensource.org/licenses/MIT''\<rparr>],
            [FetchPom ''org.example'' ''link3'' ''1'', FetchPom ''org.example'' ''link4'' ''1'',
             FetchPom ''org.example'' ''link5'' ''1''])"
    by code_simp
  have v2: "lookup_package_licenses chain_network (example_store 2) [] =
      Some ([], [PackageHeuristic ''unknown''])"
    by code_simp
  from enrich_packages_frame [of chain_network example_store "[]" "[0, 1, 2]"]
  obtain st' log' where e: "enrich_packages chain_network example_store [] [0, 1, 2] = Some ([0, 1, 2], st', log')"
    and a: "\<forall>r. has_licenses (example_store r) \<longrightarrow> st' r = example_store r"
    and b: "\<forall>r. r \<notin> set [0, 1, 2] \<longrightarrow> st' r = example_store r"
    and c: "\<forall>r \<in> set [0, 1, 2]. \<not> has_licenses (example_store r) \<longrightarrow>
          (\<exists>lics. (\<forall>l0. \<exists>new. lookup_package_licenses chain_network (example_store r) l0 = Some (lics, l0 @ new))
             \<and> (lics \<noteq> [] \<longrightarrow>
                  st' r = (example_store r)\<lparr>licenses := lics, license_source := ''Maven/GitHub/Heuristic''\<rparr>)
             \<and> (lics = [] \<longrightarrow> st' r = example_store r))"
    by (elim exE conjE) (rule that, assumption+)
  from a h0 have s0: "st' 0 = example_store 0" by blast
  have "(3::nat) \<notin> set [0, 1, 2]" by simp
  with b have s3: "st' 3 = example_store 3" by blast
  have "(1::nat) \<in> set [0, 1, 2]" by simp
  with c h1 obtain lics1 where
    l1: "\<forall>l0. \<exists>new. lookup_package_licenses chain_network (example_store 1) l0 = Some (lics1, l0 @ new)"
    and u1: "lics1 \<noteq> [] \<longrightarrow>
       st' 1 = (example_store 1)\<lparr>licenses := lics1, license_source := ''Maven/GitHub/Heuristic''\<rparr>"
    by blast
  from l1 obtain new1 where "lookup_package_licenses chain_network (example_store 1) [] = Some (lics1, [] @ new1)"
    by blast
  with v1 have "lics1 = [\<lparr>name = ''MIT'', url = Some ''https://opensource.org/licenses/MIT''\<rparr>]" by auto
  with u1 have s1: "st' 1 = (example_store 1)\<lparr>licenses :=
                     [\<lparr>name = ''MIT'', url = Some ''https://opensource.org/licenses/MIT''\<rparr>],
                     license_source := ''Maven/GitHub/Heuristic''\<rparr>" by simp
  have "(2::nat) \<in> set [0, 1, 2]" by simp
  with c h2 obtain lics2 where
    l2: "\<forall>l0. \<exists>new. lookup_package_licenses chain_network (example_store 2) l0 = Some (lics2, l0 @ new)"
    and u2: "lics2 = [] \<longrightarrow> st' 2 = example_store 2"
    by blast
  from l2 obtain new2 where "lookup_package_licenses chain_network (example_store 2) [] = Some (lics2, [] @ new2)"
    by blast
  with v2 have "lics2 = []" by auto
  with u2 have s2: "st' 2 = example_store 2" by simp
  from e s0 s1 s2 s3 have "\<exists>st' log'. enrich_packages chain_network example_store [] [0, 1, 2] = Some ([0, 1, 2], st', log')
        \<and> st' 0 = example_store 0
        \<and> st' 1 = (example_store 1)\<lparr>licenses :=
                     [\<lparr>name = ''MIT'', url = Some ''https://opensource.org/licenses/MIT''\<rparr>],
                     license_source := ''Maven/GitHub/Heuristic''\<rparr>
        \<and> st' 2 = example_store 2
        \<and> st' 3 = example_store 3" by blast
  with h0 h1 h2 show ?thesis by blast
qed

section \<open>What deduplication returns\<close>

lemma fresh_simps:
  "fresh S [] = []"
  "fresh S (l # ls) = (if name l \<in> S then fresh S ls else l # fresh S ls)"
  "fresh S (xs @ ys) = fresh S xs @ fresh S ys"
  "fresh {} ls = ls"
  by (simp_all add: fresh_def)

lemma fresh_fresh: "fresh S (fresh T ls) = fresh (S \<union> T) ls"
  unfolding fresh_def filter_filter by (rule filter_cong) auto

lemma fresh_single: "filter (\<lambda>m. name m \<noteq> name l) ls = fresh {name l} ls"
  by (simp add: fresh_def)

lemma names_fresh: "name ` set (fresh S ls) \<union> S = name ` set ls \<union> S"
  by (auto simp: fresh_def)

lemma names_uniq_by_name: "name ` set (uniq_by_name ls) = name ` set ls"
  by (induction ls rule: uniq_by_name.induct) auto

lemma distinct_uniq_by_name: "distinct (map name (uniq_by_name ls))"
proof (induction ls rule: uniq_by_name.induct)
  case 1
  show ?case by simp
next
  case (2 l ls)
  have "name l \<notin> name ` set (uniq_by_name (filter (\<lambda>m. name m \<noteq> name l) ls))"
    unfolding names_uniq_by_name by auto
  with 2 show ?case by simp
qed

lemma uniq_by_name_id: "distinct (map name ls) \<Longrightarrow> uniq_by_name ls = ls"
proof (induction ls)
  case Nil
  show ?case by simp
next
  case (Cons l ls)
  from Cons.prems have "name l \<notin> name ` set ls" by simp
  then have "\<forall>m \<in> set ls. name m \<noteq> name l" by (metis image_eqI)
  then have "filter (\<lambda>m. name m \<noteq> name l) ls = ls" by (simp add: filter_id_conv)
  with Cons show ?case by simp
qed

lemma uniq_by_name_append:
  "uniq_by_name (xs @ ys) = uniq_by_name xs @ uniq_by_name (fresh (name ` set xs) ys)"
proof (induction xs arbitrary: ys rule: uniq_by_name.induct)
  case 1
  show ?case by (simp add: fresh_simps)
next
  case (2 l ls)
  have n: "name ` set (fresh {name l} ls) \<union> {name l} = name ` set (l # ls)"
    using names_fresh [of "{name l}" ls] by auto
  have "uniq_by_name ((l # ls) @ ys) = l # uniq_by_name (fresh {name l} ls @ fresh {name l} ys)"
    by (simp add: fresh_single fresh_simps)
  also have "\<dots> = l # uniq_by_name (fresh {name l} ls)
      @ uniq_by_name (fresh (name ` set (fresh {name l} ls)) (fresh {name l} ys))"
    using "2.IH" [of "fresh {name l} ys"] by (simp add: fresh_single)
  also have "\<dots> = uniq_by_name (l # ls) @ uniq_by_name (fresh (name ` set (l # ls)) ys)"
    unfolding fresh_fresh n by (simp add: fresh_single)
  finally show ?case .
qed

lemma merge_licenses_eq:
  "existing = name ` set lics \<Longrightarrow>
   fst (merge_licenses (lics, existing) ls) = lics @ uniq_by_name (fresh existing ls)"
proof (induction ls arbitrary: lics existing)
  case Nil
  show ?case by (simp add: fresh_simps)
next
  case (Cons l ls)
  show ?case
  proof (cases "name l \<in> existing")
    case True
    with Cons show ?thesis by (simp add: fresh_simps)
  next
    case False
    have e: "insert (name l) existing = name ` set (lics @ [l])" using Cons.prems by auto
    have "fst (merge_licenses (lics, existing) (l # ls)) =
        fst (merge_licenses (lics @ [l], insert (name l) existing) ls)"
      using False by simp
    also have "\<dots> = (lics @ [l]) @ uniq_by_name (fresh (insert (name l) existing) ls)"
      by (rule Cons.IH [OF e])
    also have "fresh (insert (name l) existing) ls = fresh {name l} (fresh existing ls)"
      by (simp add: fresh_fresh)
    finally show ?thesis using False by (simp add: fresh_simps fresh_single)
  qed
qed

lemma absorb_absorb: "absorb (absorb entry ls1) ls2 = absorb entry (ls1 @ ls2)"
proof -
  let ?L = "licenses entry"
  let ?NL = "name ` set ?L"
  let ?F1 = "fresh ?NL ls1"
  have l1: "licenses (absorb entry ls1) = ?L @ uniq_by_name ?F1" by (simp add: absorb_def)
  have n: "name ` set (?L @ uniq_by_name ?F1) = name ` set ?F1 \<union> ?NL"
    by (simp add: image_Un names_uniq_by_name Un_commute)
  have "uniq_by_name (fresh ?NL (ls1 @ ls2)) =
      uniq_by_name ?F1 @ uniq_by_name (fresh (name ` set ?F1 \<union> ?NL) ls2)"
    by (simp add: fresh_simps uniq_by_name_append fresh_fresh)
  then have "licenses (absorb entry ls1)
        @ uniq_by_name (fresh (name ` set (licenses (absorb entry ls1))) ls2)
      = ?L @ uniq_by_name (fresh ?NL (ls1 @ ls2))"
    unfolding l1 n by simp
  then show ?thesis
    by (simp add: absorb_def)
qed

lemma absorb_blank:
  "absorb (blank_entry p) ls =
     \<lparr>pkg_name = pkg_name p, version = version p, purl = purl p,
      licenses = uniq_by_name ls, license_source = license_source p\<rparr>"
  by (simp add: absorb_def blank_entry_def fresh_simps)

lemma map_fst_map_entry: "map fst (AList.map_entry k f al) = map fst al"
  by (induction al) auto

lemma dedup_step_keys:
  "map fst (dedup_step acc p) =
     (if unique_key p \<in> set (map fst acc) then map fst acc else map fst acc @ [unique_key p])"
  by (simp add: dedup_step_def Let_def map_fst_map_entry AList.update_keys)

lemma dedup_step_map_of:
  "map_of (dedup_step acc p) k =
     (if k = unique_key p
      then Some (absorb (case map_of acc k of Some e \<Rightarrow> e | None \<Rightarrow> blank_entry p) (licenses p))
      else map_of acc k)"
proof -
  have m: "\<And>entry. entry\<lparr>licenses := fst (merge_licenses (licenses entry, name ` set (licenses entry)) (licenses p))\<rparr>
      = absorb entry (licenses p)"
    by (simp add: absorb_def merge_licenses_eq)
  show ?thesis
  proof (cases "unique_key p \<in> fst ` set acc")
    case True
    then obtain e where "map_of acc (unique_key p) = Some e"
      by (metis domD dom_map_of_conv_image_fst)
    with True show ?thesis
      by (simp add: dedup_step_def Let_def m AList.map_of_map_entry)
  next
    case False
    then have "map_of acc (unique_key p) = None" by (simp add: map_of_eq_None_iff)
    with False show ?thesis
      by (simp add: dedup_step_def Let_def m AList.map_of_map_entry AList.update_conv' blank_entry_def)
  qed
qed

lemma set_first_seen: "set (first_seen xs) = set xs"
  by (induction xs rule: first_seen.induct) auto

lemma distinct_first_seen: "distinct (first_seen xs)"
  by (induction xs rule: first_seen.induct) (auto simp: set_first_seen)

lemma first_seen_id: "distinct xs \<Longrightarrow> first_seen xs = xs"
proof (induction xs)
  case Nil
  show ?case by simp
next
  case (Cons x xs)
  then have "filter (\<lambda>y. y \<noteq> x) xs = xs" by (auto simp: filter_id_conv)
  with Cons show ?case by simp
qed

lemma foldl_keys:
  "map fst (foldl dedup_step acc ps) =
     map fst acc @ first_seen (filter (\<lambda>k. k \<notin> set (map fst acc)) (map unique_key ps))"
proof (induction ps arbitrary: acc)
  case Nil
  show ?case by simp
next
  case (Cons p ps)
  show ?case
  proof (cases "unique_key p \<in> set (map fst acc)")
    case True
    then have "map fst (dedup_step acc p) = map fst acc" by (simp add: dedup_step_keys)
    with True Cons.IH [of "dedup_step acc p"] show ?thesis by simp
  next
    case False
    then have k: "map fst (dedup_step acc p) = map fst acc @ [unique_key p]"
      by (simp add: dedup_step_keys)
    have f: "filter (\<lambda>k. k \<notin> set (map fst acc @ [unique_key p])) (map unique_key ps)
        = filter (\<lambda>y. y \<noteq> unique_key p)
            (filter (\<lambda>k. k \<notin> set (map fst acc)) (map unique_key ps))"
      unfolding filter_filter by (rule filter_cong) auto
    have "map fst (foldl dedup_step acc (p # ps)) =
        (map fst acc @ [unique_key p])
          @ first_seen (filter (\<lambda>k. k \<notin> set (map fst acc @ [unique_key p])) (map unique_key ps))"
      using Cons.IH [of "dedup_step acc p"] unfolding k by simp
    also have "\<dots> = map fst acc
          @ first_seen (unique_key p # filter (\<lambda>k. k \<notin> set (map fst acc)) (map unique_key ps))"
      unfolding f by simp
    also have "unique_key p # filter (\<lambda>k. k \<notin> set (map fst acc)) (map unique_key ps)
        = filter (\<lambda>k. k \<notin> set (map fst acc)) (map unique_key (p # ps))"
      using False by simp
    finally show ?thesis .
  qed
qed

lemma members_simps:
  "members k [] = []"
  "members k (p # ps) = (if unique_key p = k then p # members k ps else members k ps)"
  by (simp_all add: members_def)

lemma foldl_map_of:
  "map_of (foldl dedup_step acc ps) k =
     (case map_of acc k of
        Some e \<Rightarrow> Some (absorb e (concat (map licenses (members k ps))))
      | None \<Rightarrow>
          (case members k ps of
             [] \<Rightarrow> None
           | p # rest \<Rightarrow> Some (absorb (blank_entry p) (concat (map licenses (members k ps))))))"
proof (induction ps arbitrary: acc)
  case Nil
  have "\<And>e. absorb e [] = e" by (simp add: absorb_def fresh_simps)
  then show ?case by (simp add: members_simps split: option.splits)
next
  case (Cons p ps)
  show ?case
  proof (cases "unique_key p = k")
    case False
    then have m: "members k (p # ps) = members k ps" by (simp add: members_simps)
    from False have "map_of (dedup_step acc p) k = map_of acc k" by (auto simp: dedup_step_map_of)
    with Cons.IH [of "dedup_step acc p"] show ?thesis unfolding m by simp
  next
    case True
    then have m: "members k (p # ps) = p # members k ps" by (simp add: members_simps)
    show ?thesis
    proof (cases "map_of acc k")
      case None
      with True have "map_of (dedup_step acc p) k = Some (absorb (blank_entry p) (licenses p))"
        by (simp add: dedup_step_map_of)
      with None Cons.IH [of "dedup_step acc p"] show ?thesis
        unfolding m by (simp add: absorb_absorb)
    next
      case (Some e)
      with True have "map_of (dedup_step acc p) k = Some (absorb e (licenses p))"
        by (simp add: dedup_step_map_of)
      with Some Cons.IH [of "dedup_step acc p"] show ?thesis
        unfolding m by (simp add: absorb_absorb)
    qed
  qed
qed

lemma deduplicate_distinct_keys: "distinct (map fst (foldl dedup_step [] ps))"
  by (simp add: foldl_keys distinct_first_seen)

lemma deduplicate_entry:
  assumes "(k, q) \<in> set (foldl dedup_step [] ps)"
  shows "\<exists>p rest. members k ps = p # rest
           \<and> q = \<lparr>pkg_name = pkg_name p, version = version p, purl = purl p,
                   licenses = uniq_by_name (concat (map licenses (members k ps))),
                   license_source = license_source p\<rparr>"
proof -
  from assms deduplicate_distinct_keys have "map_of (foldl dedup_step [] ps) k = Some q"
    by (simp add: map_of_is_SomeI)
  then show ?thesis
    by (simp add: foldl_map_of absorb_blank split: list.splits)
qed

lemma members_head_key: "members k ps = p # rest \<Longrightarrow> unique_key p = k"
proof -
  assume "members k ps = p # rest"
  then have "p \<in> set (members k ps)" by simp
  then show ?thesis by (simp add: members_def)
qed

lemma deduplicate_entry_key:
  assumes "(k, q) \<in> set (foldl dedup_step [] ps)"
  shows "unique_key q = k"
proof -
  from deduplicate_entry [OF assms] obtain p rest where m: "members k ps = p # rest"
    and q: "pkg_name q = pkg_name p" "version q = version p" by auto
  from m have "unique_key p = k" by (rule members_head_key)
  with q show ?thesis by (simp add: unique_key_def)
qed

lemma deduplicate_keys: "map unique_key (deduplicate ps) = first_seen (map unique_key ps)"
proof -
  have "map unique_key (deduplicate ps) = map (\<lambda>x. unique_key (snd x)) (foldl dedup_step [] ps)"
    by (simp add: deduplicate_def comp_def)
  also have "\<dots> = map fst (foldl dedup_step [] ps)"
    by (rule map_cong) (auto dest: deduplicate_entry_key)
  also have "\<dots> = first_seen (map unique_key ps)"
    by (simp add: foldl_keys)
  finally show ?thesis .
qed

lemma deduplicate_member:
  assumes "q \<in> set (deduplicate ps)"
  shows "\<exists>p rest. filter (\<lambda>p. unique_key p = unique_key q) ps = p # rest
           \<and> q = \<lparr>pkg_name = pkg_name p, version = version p, purl = purl p,
                   licenses = uniq_by_name (concat (map licenses (p # rest))),
                   license_source = license_source p\<rparr>"
proof -
  from assms obtain k where kq: "(k, q) \<in> set (foldl dedup_step [] ps)"
    by (auto simp: deduplicate_def)
  then have "unique_key q = k" by (rule deduplicate_entry_key)
  with deduplicate_entry [OF kq] show ?thesis by (auto simp: members_def)
qed

lemma deduplicate_distinct_names:
  assumes "q \<in> set (deduplicate ps)"
  shows "distinct (map name (licenses q))"
proof -
  from deduplicate_member [OF assms] obtain p :: Package and rest where
    "q = \<lparr>pkg_name = pkg_name p, version = version p, purl = purl p,
          licenses = uniq_by_name (concat (map licenses (p # rest))),
          license_source = license_source p\<rparr>" by blast
  then have "licenses q = uniq_by_name (concat (map licenses (p # rest)))"
    by (metis Package.select_convs(4))
  then show ?thesis by (simp only: distinct_uniq_by_name)
qed

text \<open>
  C2. The keys of the output are the distinct keys of the input in the order of their
  first occurrence, each once. Every output package has the name, version, purl and
  license source of the first input package with its key, and its licenses are those of
  all input packages with its key, in input order, without the licenses whose name an
  earlier one has; no two of its licenses share a name. Two packages with one key and
  the licenses A and B merge to one package with A, B and the purl and source of the
  first; with A, B and B (another URL), C they merge to A, B, C.
\<close>

theorem deduplicate_groups:
  "map unique_key (deduplicate packages) = first_seen (map unique_key packages)
   \<and> distinct (map unique_key (deduplicate packages))
   \<and> (\<forall>q \<in> set (deduplicate packages).
        (\<exists>p rest. filter (\<lambda>m. unique_key m = unique_key q) packages = p # rest
           \<and> pkg_name q = pkg_name p \<and> version q = version p \<and> purl q = purl p
           \<and> license_source q = license_source p
           \<and> licenses q = uniq_by_name (concat (map licenses (p # rest))))
        \<and> distinct (map name (licenses q)))
   \<and> deduplicate [pkg ''core'' ''1.0'' ''pkg:maven/a/core@1.0'' [lic ''A'' ''http://a''] ''Original'',
                   pkg ''core'' ''1.0'' ''pkg:maven/b/core@1.0'' [lic ''B'' ''http://b''] ''Maven/GitHub/Heuristic'']
       = [pkg ''core'' ''1.0'' ''pkg:maven/a/core@1.0'' [lic ''A'' ''http://a'', lic ''B'' ''http://b''] ''Original'']
   \<and> deduplicate [pkg ''core'' ''1.0'' ''pkg:maven/a/core@1.0'' [lic ''A'' ''http://a'', lic ''B'' ''http://b''] ''Original'',
                   pkg ''core'' ''1.0'' ''pkg:maven/b/core@1.0'' [lic ''B'' ''http://other'', lic ''C'' ''http://c''] ''Original'']
       = [pkg ''core'' ''1.0'' ''pkg:maven/a/core@1.0''
            [lic ''A'' ''http://a'', lic ''B'' ''http://b'', lic ''C'' ''http://c''] ''Original'']"
proof -
  have k: "map unique_key (deduplicate packages) = first_seen (map unique_key packages)"
    by (rule deduplicate_keys)
  then have d: "distinct (map unique_key (deduplicate packages))"
    by (simp only: distinct_first_seen)
  have m: "\<forall>q \<in> set (deduplicate packages).
        (\<exists>p rest. filter (\<lambda>m. unique_key m = unique_key q) packages = p # rest
           \<and> pkg_name q = pkg_name p \<and> version q = version p \<and> purl q = purl p
           \<and> license_source q = license_source p
           \<and> licenses q = uniq_by_name (concat (map licenses (p # rest))))
        \<and> distinct (map name (licenses q))"
  proof
    fix q assume q: "q \<in> set (deduplicate packages)"
    from deduplicate_member [OF q] obtain p rest where
      f: "filter (\<lambda>p. unique_key p = unique_key q) packages = p # rest"
      and e: "q = \<lparr>pkg_name = pkg_name p, version = version p, purl = purl p,
                   licenses = uniq_by_name (concat (map licenses (p # rest))),
                   license_source = license_source p\<rparr>" by blast
    from e have "pkg_name q = pkg_name p \<and> version q = version p \<and> purl q = purl p
           \<and> license_source q = license_source p
           \<and> licenses q = uniq_by_name (concat (map licenses (p # rest)))"
      by (metis Package.select_convs)
    with f deduplicate_distinct_names [OF q]
    show "(\<exists>p rest. filter (\<lambda>m. unique_key m = unique_key q) packages = p # rest
           \<and> pkg_name q = pkg_name p \<and> version q = version p \<and> purl q = purl p
           \<and> license_source q = license_source p
           \<and> licenses q = uniq_by_name (concat (map licenses (p # rest))))
        \<and> distinct (map name (licenses q))" by blast
  qed
  have e1: "deduplicate [pkg ''core'' ''1.0'' ''pkg:maven/a/core@1.0'' [lic ''A'' ''http://a''] ''Original'',
                   pkg ''core'' ''1.0'' ''pkg:maven/b/core@1.0'' [lic ''B'' ''http://b''] ''Maven/GitHub/Heuristic'']
       = [pkg ''core'' ''1.0'' ''pkg:maven/a/core@1.0'' [lic ''A'' ''http://a'', lic ''B'' ''http://b''] ''Original'']"
    by code_simp
  have e2: "deduplicate [pkg ''core'' ''1.0'' ''pkg:maven/a/core@1.0'' [lic ''A'' ''http://a'', lic ''B'' ''http://b''] ''Original'',
                   pkg ''core'' ''1.0'' ''pkg:maven/b/core@1.0'' [lic ''B'' ''http://other'', lic ''C'' ''http://c''] ''Original'']
       = [pkg ''core'' ''1.0'' ''pkg:maven/a/core@1.0''
            [lic ''A'' ''http://a'', lic ''B'' ''http://b'', lic ''C'' ''http://c''] ''Original'']"
    by code_simp
  from k d m e1 e2 show ?thesis by blast
qed

theorem deduplicate_groups_witness:
  "deduplicate example_packages =
     [pkg ''core'' ''1.0'' ''pkg:maven/a/core@1.0'' [lic ''A'' ''http://a'', lic ''B'' ''http://b''] ''Original'',
      pkg ''other'' ''2'' ''pkg:maven/a/other@2'' [lic ''B'' ''http://b''] ''Original'']
   \<and> pkg ''core'' ''1.0'' ''pkg:maven/a/core@1.0'' [lic ''A'' ''http://a'', lic ''B'' ''http://b''] ''Original''
       \<in> set (deduplicate example_packages)
   \<and> (\<exists>p rest.
         filter (\<lambda>m. unique_key m = unique_key
            (pkg ''core'' ''1.0'' ''pkg:maven/a/core@1.0'' [lic ''A'' ''http://a'', lic ''B'' ''http://b''] ''Original''))
           example_packages = p # rest
         \<and> purl p = ''pkg:maven/a/core@1.0''
         \<and> [lic ''A'' ''http://a'', lic ''B'' ''http://b''] = uniq_by_name (concat (map licenses (p # rest))))
   \<and> map unique_key (deduplicate example_packages) = first_seen (map unique_key example_packages)
   \<and> first_seen (map unique_key example_packages) = [(''core'', ''1.0''), (''other'', ''2'')]"
proof -
  let ?q = "pkg ''core'' ''1.0'' ''pkg:maven/a/core@1.0'' [lic ''A'' ''http://a'', lic ''B'' ''http://b''] ''Original''"
  have v: "deduplicate example_packages =
     [?q, pkg ''other'' ''2'' ''pkg:maven/a/other@2'' [lic ''B'' ''http://b''] ''Original'']"
    by code_simp
  then have q: "?q \<in> set (deduplicate example_packages)" by simp
  have f: "first_seen (map unique_key example_packages) = [(''core'', ''1.0''), (''other'', ''2'')]"
    by code_simp
  note t = deduplicate_groups [of example_packages]
  from t have k: "map unique_key (deduplicate example_packages) = first_seen (map unique_key example_packages)"
    by (rule conjunct1)
  from t have "\<forall>q \<in> set (deduplicate example_packages).
        (\<exists>p rest. filter (\<lambda>m. unique_key m = unique_key q) example_packages = p # rest
           \<and> pkg_name q = pkg_name p \<and> version q = version p \<and> purl q = purl p
           \<and> license_source q = license_source p
           \<and> licenses q = uniq_by_name (concat (map licenses (p # rest))))
        \<and> distinct (map name (licenses q))"
    by (elim conjE)
  with q obtain p rest where
    "filter (\<lambda>m. unique_key m = unique_key ?q) example_packages = p # rest"
    "purl ?q = purl p" "licenses ?q = uniq_by_name (concat (map licenses (p # rest)))"
    by blast
  then have "\<exists>p rest. filter (\<lambda>m. unique_key m = unique_key ?q) example_packages = p # rest
         \<and> purl p = ''pkg:maven/a/core@1.0''
         \<and> [lic ''A'' ''http://a'', lic ''B'' ''http://b''] = uniq_by_name (concat (map licenses (p # rest)))"
    by (auto simp: pkg_def)
  with v q k f show ?thesis by simp
qed

lemma update_fresh: "k \<notin> fst ` set al \<Longrightarrow> AList.update k v al = al @ [(k, v)]"
  by (induction al) auto

lemma map_entry_last: "k \<notin> fst ` set al \<Longrightarrow> AList.map_entry k f (al @ [(k, v)]) = al @ [(k, f v)]"
  by (induction al) auto

lemma dedup_step_fresh:
  assumes "unique_key q \<notin> fst ` set acc" and "distinct (map name (licenses q))"
  shows "dedup_step acc q = acc @ [(unique_key q, q)]"
proof -
  have "blank_entry q\<lparr>licenses :=
      fst (merge_licenses (licenses (blank_entry q), name ` set (licenses (blank_entry q))) (licenses q))\<rparr>
      = absorb (blank_entry q) (licenses q)"
    by (simp add: absorb_def merge_licenses_eq)
  also have "\<dots> = q"
    using assms(2) by (simp add: absorb_blank uniq_by_name_id)
  finally have f: "blank_entry q\<lparr>licenses :=
      fst (merge_licenses (licenses (blank_entry q), name ` set (licenses (blank_entry q))) (licenses q))\<rparr> = q" .
  from assms(1) have "dedup_step acc q =
      AList.map_entry (unique_key q)
        (\<lambda>entry. entry\<lparr>licenses :=
           fst (merge_licenses (licenses entry, name ` set (licenses entry)) (licenses q))\<rparr>)
        (acc @ [(unique_key q, blank_entry q)])"
    by (simp add: dedup_step_def Let_def update_fresh blank_entry_def)
  also have "\<dots> = acc @ [(unique_key q, q)]"
    unfolding map_entry_last [OF assms(1)] f ..
  finally show ?thesis .
qed

lemma foldl_fixed:
  assumes "distinct (map unique_key qs)"
    and "\<forall>q \<in> set qs. unique_key q \<notin> fst ` set acc"
    and "\<forall>q \<in> set qs. distinct (map name (licenses q))"
  shows "foldl dedup_step acc qs = acc @ map (\<lambda>q. (unique_key q, q)) qs"
  using assms
proof (induction qs arbitrary: acc)
  case Nil
  show ?case by simp
next
  case (Cons q qs)
  from Cons.prems have s: "dedup_step acc q = acc @ [(unique_key q, q)]"
    by (simp add: dedup_step_fresh)
  from Cons.prems(1) have "unique_key q \<notin> unique_key ` set qs" by simp
  then have "\<forall>r \<in> set qs. unique_key r \<noteq> unique_key q" by (metis imageI)
  with Cons.prems(2) have "\<forall>r \<in> set qs. unique_key r \<notin> fst ` set (acc @ [(unique_key q, q)])"
    by simp
  with Cons.prems have "foldl dedup_step (acc @ [(unique_key q, q)]) qs =
      (acc @ [(unique_key q, q)]) @ map (\<lambda>q. (unique_key q, q)) qs"
    by (intro Cons.IH) auto
  with s show ?case by simp
qed

lemma deduplicate_fixed:
  assumes "distinct (map unique_key qs)" and "\<forall>q \<in> set qs. distinct (map name (licenses q))"
  shows "deduplicate qs = qs"
proof -
  from assms have "foldl dedup_step [] qs = [] @ map (\<lambda>q. (unique_key q, q)) qs"
    by (intro foldl_fixed) auto
  then show ?thesis by (simp add: deduplicate_def comp_def)
qed

text \<open>
  C10. Deduplicating the output of a deduplication returns that output: the same
  packages with the same fields and license lists in the same order. The output of one
  pass has distinct keys, and the license names within each of its packages are
  distinct.
\<close>

theorem deduplicate_idempotent:
  "deduplicate (deduplicate packages) = deduplicate packages
   \<and> distinct (map unique_key (deduplicate packages))
   \<and> (\<forall>q \<in> set (deduplicate packages). distinct (map name (licenses q)))"
proof -
  have d: "distinct (map unique_key (deduplicate packages))"
    by (simp only: deduplicate_keys distinct_first_seen)
  have n: "\<forall>q \<in> set (deduplicate packages). distinct (map name (licenses q))"
    using deduplicate_distinct_names by blast
  from d n have "deduplicate (deduplicate packages) = deduplicate packages"
    by (rule deduplicate_fixed)
  with d n show ?thesis by blast
qed

theorem deduplicate_idempotent_witness:
  "deduplicate (deduplicate example_packages) = deduplicate example_packages
   \<and> deduplicate example_packages \<noteq> example_packages
   \<and> pkg ''other'' ''2'' ''pkg:maven/a/other@2'' [lic ''B'' ''http://b''] ''Original''
       \<in> set (deduplicate example_packages)
   \<and> distinct (map name (licenses (pkg ''other'' ''2'' ''pkg:maven/a/other@2'' [lic ''B'' ''http://b''] ''Original'')))"
proof -
  let ?q = "pkg ''other'' ''2'' ''pkg:maven/a/other@2'' [lic ''B'' ''http://b''] ''Original''"
  have v: "deduplicate example_packages =
     [pkg ''core'' ''1.0'' ''pkg:maven/a/core@1.0'' [lic ''A'' ''http://a'', lic ''B'' ''http://b''] ''Original'', ?q]"
    by code_simp
  then have q: "?q \<in> set (deduplicate example_packages)" by simp
  have n: "deduplicate example_packages \<noteq> example_packages"
    unfolding v by (simp add: example_packages_def)
  note t = deduplicate_idempotent [of example_packages]
  from t have i: "deduplicate (deduplicate example_packages) = deduplicate example_packages"
    by (rule conjunct1)
  from t have "\<forall>q \<in> set (deduplicate example_packages). distinct (map name (licenses q))"
    by (elim conjE)
  then have "distinct (map name (licenses ?q))" using q by (rule bspec)
  with i n q show ?thesis by simp
qed


end
